theory Spec2Isabelle
  imports Main
begin

section \<open>Strings as the program uses them\<close>

text \<open>
  The program is \<^verbatim>\<open>md_to_notion_batch.py\<close>. A Python \<^verbatim>\<open>str\<close> is modelled as a
  \<^typ>\<open>string\<close>; a \<^typ>\<open>char\<close> stands for a code point below 256, so \<^const>\<open>length\<close>
  counts code points for text in that range. The character classes below are Python's,
  restricted to that range.
\<close>

abbreviation NL :: char where "NL \<equiv> CHR 0x0A"
abbreviation CR :: char where "CR \<equiv> CHR 0x0D"
abbreviation DOLLAR :: char where "DOLLAR \<equiv> CHR ''$''"
abbreviation BACKTICK :: char where "BACKTICK \<equiv> CHR 0x60"

definition py_isspace :: "char \<Rightarrow> bool" where
  \<comment> \<open>\<^verbatim>\<open>str.isspace\<close>, the set \<^verbatim>\<open>str.strip()\<close> removes and the regex class \<^verbatim>\<open>\s\<close>:
      TAB..CR, FS..US, space, NEL and NBSP.\<close>
  "py_isspace c = (c \<in> set [CHR 0x09, CHR 0x0A, CHR 0x0B, CHR 0x0C, CHR 0x0D,
      CHR 0x1C, CHR 0x1D, CHR 0x1E, CHR 0x1F, CHR 0x20, CHR 0x85, CHR 0xA0])"

definition re_digit :: "char \<Rightarrow> bool" where
  \<comment> \<open>the regex class \<^verbatim>\<open>\d\<close>: the decimal digits\<close>
  "re_digit c = (c \<in> set ''0123456789'')"

definition py_isdigit :: "char \<Rightarrow> bool" where
  \<comment> \<open>\<^verbatim>\<open>str.isdigit\<close>: the decimal digits and the superscript digits 2, 3 and 1\<close>
  "py_isdigit c = (re_digit c \<or> c \<in> set [CHR 0xB2, CHR 0xB3, CHR 0xB9])"

definition lstrip :: "string \<Rightarrow> string" where
  "lstrip s = dropWhile py_isspace s"

definition rstrip :: "string \<Rightarrow> string" where
  "rstrip s = rev (dropWhile py_isspace (rev s))"

definition strip :: "string \<Rightarrow> string" where
  \<comment> \<open>\<^verbatim>\<open>s.strip()\<close>\<close>
  "strip s = lstrip (rstrip s)"

definition startswith :: "string \<Rightarrow> string \<Rightarrow> bool" where
  \<comment> \<open>\<^verbatim>\<open>s.startswith(p)\<close>\<close>
  "startswith p s = (take (length p) s = p)"

definition endswith :: "string \<Rightarrow> string \<Rightarrow> bool" where
  \<comment> \<open>\<^verbatim>\<open>s.endswith(p)\<close>\<close>
  "endswith p s = (length p \<le> length s \<and> drop (length s - length p) s = p)"

definition drop_last :: "nat \<Rightarrow> string \<Rightarrow> string" where
  \<comment> \<open>\<^verbatim>\<open>s[:-n]\<close> for \<open>n > 0\<close>\<close>
  "drop_last n s = take (length s - n) s"

fun contains :: "string \<Rightarrow> string \<Rightarrow> bool" where
  \<comment> \<open>\<^verbatim>\<open>p in s\<close>\<close>
  "contains p [] = (p = [])"
| "contains p (c # cs) = (startswith p (c # cs) \<or> contains p cs)"

fun split_nl :: "string \<Rightarrow> string list" where
  \<comment> \<open>\<^verbatim>\<open>text.split('\n')\<close>: never empty, the empty text gives one empty line\<close>
  "split_nl [] = [[]]"
| "split_nl (c # cs) =
     (let lines = split_nl cs
      in if c = NL then [] # lines else (c # hd lines) # tl lines)"

fun py_join :: "string \<Rightarrow> string list \<Rightarrow> string" where
  \<comment> \<open>\<^verbatim>\<open>sep.join(xs)\<close>\<close>
  "py_join sep [] = []"
| "py_join sep [x] = x"
| "py_join sep (x # y # ys) = x @ sep @ py_join sep (y # ys)"

section \<open>The LaTeX normalizer: \<^verbatim>\<open>LatexToNotionConverter\<close>\<close>

subsection \<open>Block math: \<^verbatim>\<open>_convert_block_math\<close>\<close>

text \<open>
  The inner \<^verbatim>\<open>while\<close> loop that looks for the closing marker. It is given the formula
  lines collected so far and the lines from index \<^verbatim>\<open>i\<close> on; it returns
  \<^verbatim>\<open>found_closing\<close>, \<^verbatim>\<open>math_lines\<close> and the lines from the final \<^verbatim>\<open>i\<close> on.
\<close>

fun collect_math :: "string list \<Rightarrow> string list \<Rightarrow> bool \<times> string list \<times> string list" where
  "collect_math math_lines [] = (False, math_lines, [])"
| "collect_math math_lines (l # ls) =
     (let next_stripped = strip l in
      if next_stripped = ''$$'' then (True, math_lines, ls)
      else if endswith ''$$'' next_stripped \<and> length next_stripped > 2
        then (True, math_lines @ [strip (drop_last 2 next_stripped)], ls)
      else if length math_lines > 30 then (False, math_lines, l # ls)
      else collect_math (math_lines @ [l]) ls)"

lemma collect_math_rest_le:
  "collect_math ml ls = (found, ml', rest) \<Longrightarrow> length rest \<le> length ls"
proof (induction ls arbitrary: ml)
  case Nil
  then show ?case by simp
next
  case (Cons l ls)
  show ?case
  proof (cases "collect_math (ml @ [l]) ls = (found, ml', rest)")
    case True
    from Cons.IH[OF True] show ?thesis by simp
  next
    case False
    with Cons.prems show ?thesis
      by (auto simp: Let_def split: if_splits)
  qed
qed

definition canonical_block :: "string \<Rightarrow> string list" where
  \<comment> \<open>the five lines appended for a recognised formula\<close>
  "canonical_block formula = ['''', ''$$'', formula, ''$$'', '''']"

text \<open>The outer loop, over the lines from index \<^verbatim>\<open>i\<close> on; it returns what is appended to
  \<^verbatim>\<open>result\<close>.\<close>

function convert_block_lines :: "string list \<Rightarrow> string list" where
  "convert_block_lines [] = []"
| "convert_block_lines (line # rest) =
     (let stripped = strip line in
      if startswith ''$$'' stripped then
        (let content_after_open = strip (drop 2 stripped) in
         if content_after_open \<noteq> [] \<and> endswith ''$$'' content_after_open then
           canonical_block (strip (drop_last 2 content_after_open)) @ convert_block_lines rest
         else
           (case collect_math (if content_after_open \<noteq> [] then [content_after_open] else []) rest of
              (found_closing, math_lines, rest') \<Rightarrow>
                (if found_closing \<and> math_lines \<noteq> []
                 then canonical_block (strip (py_join [NL] math_lines))
                 else line # math_lines) @ convert_block_lines rest'))
      else line # convert_block_lines rest)"
  by pat_completeness auto
termination
  by (relation "measure length") (auto dest!: collect_math_rest_le[OF sym])

declare convert_block_lines.simps(2) [simp del]

definition convert_block_math :: "string \<Rightarrow> string" where
  "convert_block_math text = py_join [NL] (convert_block_lines (split_nl text))"

subsection \<open>Inline math: \<^verbatim>\<open>_convert_inline_math\<close>\<close>

text \<open>
  The callback \<^verbatim>\<open>replace_inline\<close>, applied to the content \<^verbatim>\<open>match.group(1)\<close> of a match;
  \<^verbatim>\<open>match.group(0)\<close> is the content between its two dollar signs.
\<close>

definition re_numeric :: "string \<Rightarrow> bool" where
  \<comment> \<open>\<^verbatim>\<open>re.match(r'^[\d,\.]+$', content)\<close>; the final \<^verbatim>\<open>$\<close> also matches before a
      newline that ends the string\<close>
  "re_numeric content =
     (let body = (if content \<noteq> [] \<and> last content = NL then butlast content else content)
      in body \<noteq> [] \<and> list_all (\<lambda>c. re_digit c \<or> c = CHR '','' \<or> c = CHR ''.'') body)"

definition replace_inline :: "string \<Rightarrow> string" where
  "replace_inline content =
     (if strip content = [] then ''$'' @ content @ ''$''
      else if content \<noteq> [] \<and> py_isdigit (hd content) \<and> re_numeric content
        then ''$'' @ content @ ''$''
      else [DOLLAR, BACKTICK] @ content @ [BACKTICK, DOLLAR])"

text \<open>
  The regular expression \<^verbatim>\<open>(?<!\$)\$(?!\$)(.+?)(?<!\$)\$(?!\$)\<close>. \<open>find_close prev s\<close> is
  the lazy \<^verbatim>\<open>.+?\<close> after its first character: \<open>prev\<close> is the last character consumed,
  \<open>s\<close> what follows; it returns the further content up to the first dollar sign that
  closes (not preceded and not followed by a dollar sign) and the text after it.
  \<^verbatim>\<open>.\<close> does not match a newline.
\<close>

fun find_close :: "char \<Rightarrow> string \<Rightarrow> (string \<times> string) option" where
  "find_close prev [] = None"
| "find_close prev (x # xs) =
     (if x = DOLLAR \<and> prev \<noteq> DOLLAR \<and> \<not> startswith ''$'' xs then Some ([], xs)
      else if x = NL then None
      else map_option (\<lambda>(cs, r). (x # cs, r)) (find_close x xs))"

text \<open>A match that starts at the head of \<open>s\<close>, where \<open>prev\<close> is the character before it
  (\<open>None\<close> at the start of the line): the content and the text after the match.\<close>

fun match_inline :: "char option \<Rightarrow> string \<Rightarrow> (string \<times> string) option" where
  "match_inline prev (d # y # ys) =
     (if d = DOLLAR \<and> prev \<noteq> Some DOLLAR \<and> y \<noteq> DOLLAR \<and> y \<noteq> NL
      then map_option (\<lambda>(cs, r). (y # cs, r)) (find_close y ys)
      else None)"
| "match_inline prev s = None"

lemma find_close_shorter: "find_close prev s = Some (cs, r) \<Longrightarrow> length r < length s"
proof (induction s arbitrary: prev cs)
  case Nil
  then show ?case by simp
next
  case (Cons x xs)
  show ?case
  proof (cases "x = DOLLAR \<and> prev \<noteq> DOLLAR \<and> \<not> startswith ''$'' xs")
    case True
    with Cons.prems show ?thesis by simp
  next
    case False
    with Cons.prems obtain cs' where "find_close x xs = Some (cs', r)"
      by (auto split: if_splits)
    from Cons.IH[OF this] show ?thesis by simp
  qed
qed

lemma match_inline_shorter: "match_inline prev s = Some (cs, r) \<Longrightarrow> length r < length s"
proof (cases s)
  case Nil
  then show "match_inline prev s = Some (cs, r) \<Longrightarrow> length r < length s" by simp
next
  case (Cons d t)
  assume m: "match_inline prev s = Some (cs, r)"
  show "length r < length s"
  proof (cases t)
    case Nil
    with Cons m show ?thesis by simp
  next
    case (Cons y ys)
    with \<open>s = d # t\<close> m obtain cs' where "find_close y ys = Some (cs', r)"
      by (auto split: if_splits)
    from find_close_shorter[OF this] Cons \<open>s = d # t\<close> show ?thesis by simp
  qed
qed

text \<open>\<^verbatim>\<open>re.sub(pattern, replace_inline, line)\<close>: the leftmost match is replaced and the
  search goes on after it.\<close>

function sub_inline_from :: "char option \<Rightarrow> string \<Rightarrow> string" where
  "sub_inline_from prev [] = []"
| "sub_inline_from prev (c # cs) =
     (case match_inline prev (c # cs) of
        Some (content, r) \<Rightarrow> replace_inline content @ sub_inline_from (Some DOLLAR) r
      | None \<Rightarrow> c # sub_inline_from (Some c) cs)"
  by pat_completeness auto
termination
  by (relation "measure (\<lambda>(prev, s). length s)") (auto dest: match_inline_shorter)

definition sub_inline :: "string \<Rightarrow> string" where
  "sub_inline line = sub_inline_from None line"

text \<open>The loop over the lines, with the flag \<^verbatim>\<open>in_block_math\<close>.\<close>

fun convert_inline_lines :: "bool \<Rightarrow> string list \<Rightarrow> string list" where
  "convert_inline_lines in_block_math [] = []"
| "convert_inline_lines in_block_math (line # rest) =
     (if strip line = ''$$'' then line # convert_inline_lines (\<not> in_block_math) rest
      else if in_block_math \<or> contains [DOLLAR, BACKTICK] line
        then line # convert_inline_lines in_block_math rest
      else sub_inline line # convert_inline_lines in_block_math rest)"

definition convert_inline_math :: "string \<Rightarrow> string" where
  "convert_inline_math text = py_join [NL] (convert_inline_lines False (split_nl text))"

subsection \<open>The whole pass: \<^verbatim>\<open>convert\<close>\<close>

fun replace_crlf :: "string \<Rightarrow> string" where
  \<comment> \<open>\<^verbatim>\<open>text.replace('\r\n', '\n')\<close>\<close>
  "replace_crlf (a # b # cs) =
     (if a = CR \<and> b = NL then NL # replace_crlf cs else a # replace_crlf (b # cs))"
| "replace_crlf cs = cs"

function collapse_newlines :: "string \<Rightarrow> string" where
  \<comment> \<open>\<^verbatim>\<open>re.sub(r'\n{4,}', '\n\n\n', text)\<close>: a maximal run of four or more newlines
      becomes three\<close>
  "collapse_newlines [] = []"
| "collapse_newlines (c # cs) =
     (if c = NL then
        (let n = Suc (length (takeWhile (\<lambda>x. x = NL) cs)) in
         replicate (if 4 \<le> n then 3 else n) NL @ collapse_newlines (dropWhile (\<lambda>x. x = NL) cs))
      else c # collapse_newlines cs)"
  by pat_completeness auto
termination
  by (relation "measure length") (auto simp: less_Suc_eq_le length_dropWhile_le)

definition convert :: "string \<Rightarrow> string" where
  "convert markdown_text =
     strip (collapse_newlines (convert_inline_math (convert_block_math
       (replace_crlf markdown_text))))"

section \<open>The block builder: \<^verbatim>\<open>NotionBlockBuilder\<close>\<close>

subsection \<open>Rich text and blocks\<close>

text \<open>
  A rich-text element is one of the two dictionaries the builder writes:
  \<^verbatim>\<open>{"type": "text", "text": {"content": c, "link": {"url": u}}, "annotations": a}\<close>, where
  the link and the annotations may be absent, and
  \<^verbatim>\<open>{"type": "equation", "equation": {"expression": e}}\<close>. The annotations the builder
  passes are \<^verbatim>\<open>{"bold": True}\<close>, \<^verbatim>\<open>{"italic": True}\<close> and \<^verbatim>\<open>{"code": True}\<close>.
\<close>

datatype annotation = Bold | Italic | InlineCode

datatype rich_text =
    RText (text_content: string) (text_link: "string option")
      (text_annotations: "annotation option")
  | REquation (equation_expression: string)

text \<open>
  A block is \<^verbatim>\<open>{"type": t, t: inner}\<close>. Of the inner dictionary the model keeps the entry
  \<^verbatim>\<open>"rich_text"\<close> (absent for an equation and a divider) and, as an association list,
  its other entries (\<^verbatim>\<open>"language"\<close> of a code block, \<^verbatim>\<open>"expression"\<close> of an equation).
\<close>

datatype block_type =
    Paragraph | Heading nat | Quote | BulletedListItem | NumberedListItem
  | Code | Equation | Divider

record block =
  btype :: block_type
  rich_text :: "rich_text list option"
  attrs :: "(string \<times> string) list"

definition text_block :: "block_type \<Rightarrow> rich_text list \<Rightarrow> block" where
  \<comment> \<open>\<^verbatim>\<open>{"type": t, t: {"rich_text": rt}}\<close>\<close>
  "text_block t rt = \<lparr>btype = t, rich_text = Some rt, attrs = []\<rparr>"

definition equation_block :: "string \<Rightarrow> block" where
  "equation_block e = \<lparr>btype = Equation, rich_text = None, attrs = [(''expression'', e)]\<rparr>"

definition code_block :: "string \<Rightarrow> string \<Rightarrow> block" where
  "code_block code lang =
     \<lparr>btype = Code, rich_text = Some [RText code None None], attrs = [(''language'', lang)]\<rparr>"

definition divider_block :: block where
  "divider_block = \<lparr>btype = Divider, rich_text = None, attrs = []\<rparr>"

subsection \<open>\<^verbatim>\<open>_chunk_text\<close> and \<^verbatim>\<open>_parse_rich_text\<close>\<close>

abbreviation MAX_TEXT_LENGTH :: nat where "MAX_TEXT_LENGTH \<equiv> 2000"
abbreviation MAX_RICH_TEXT_ELEMENTS :: nat where "MAX_RICH_TEXT_ELEMENTS \<equiv> 100"

function chunk_text :: "string \<Rightarrow> annotation option \<Rightarrow> rich_text list" where
  "chunk_text content annotations =
     (if content = [] then []
      else RText (take MAX_TEXT_LENGTH content) None annotations
             # chunk_text (drop MAX_TEXT_LENGTH content) annotations)"
  by pat_completeness auto
termination
  by (relation "measure (\<lambda>(content, annotations). length content)") auto

declare chunk_text.simps [simp del]

text \<open>
  The five alternatives of the pattern of \<^verbatim>\<open>_parse_rich_text\<close> all have the form
  opening, one or more characters other than a delimiter, that delimiter. \<open>until d s\<close>
  matches \<^verbatim>\<open>[^d]+d\<close> at the head of \<open>s\<close>: the run and the text after the delimiter.
  The run is the longest one, and no shorter run is followed by the delimiter, so the
  regex engine has nothing to backtrack to.
\<close>

definition until :: "char \<Rightarrow> string \<Rightarrow> (string \<times> string) option" where
  "until d s =
     (let run = takeWhile (\<lambda>c. c \<noteq> d) s; rest = dropWhile (\<lambda>c. c \<noteq> d) s
      in if run \<noteq> [] \<and> rest \<noteq> [] then Some (run, tl rest) else None)"

text \<open>
  \<open>delimited opening d closing s\<close> matches, at the head of \<open>s\<close>, the literal
  \<open>opening\<close>, then \<^verbatim>\<open>[^d]+d\<close>, then the literal \<open>closing\<close>: the run and the text
  after the match.
\<close>

definition delimited :: "string \<Rightarrow> char \<Rightarrow> string \<Rightarrow> string \<Rightarrow> (string \<times> string) option" where
  "delimited opening d closing s =
     (if startswith opening s then
        (case until d (drop (length opening) s) of
           Some (body, r) \<Rightarrow>
             if startswith closing r then Some (body, drop (length closing) r) else None
         | None \<Rightarrow> None)
      else None)"

text \<open>
  One attempt of the pattern at the head of \<open>s\<close>, the alternatives in their order:
  inline math, bold, italic, inline code, link. It returns the elements appended for
  the match and the text after the match.
\<close>

definition match_markup :: "string \<Rightarrow> (rich_text list \<times> string) option" where
  "match_markup s =
     (case delimited [DOLLAR, BACKTICK] BACKTICK ''$'' s of
        Some (body, r) \<Rightarrow> Some ([REquation body], r)
      | None \<Rightarrow>
     (case delimited ''**'' (CHR ''*'') ''*'' s of
        Some (body, r) \<Rightarrow> Some (chunk_text body (Some Bold), r)
      | None \<Rightarrow>
     (case delimited ''*'' (CHR ''*'') [] s of
        Some (body, r) \<Rightarrow> Some (chunk_text body (Some Italic), r)
      | None \<Rightarrow>
     (case delimited [BACKTICK] BACKTICK [] s of
        Some (body, r) \<Rightarrow> Some (chunk_text body (Some InlineCode), r)
      | None \<Rightarrow>
     (case delimited ''['' (CHR '']'') ''('' s of
        Some (txt, r) \<Rightarrow>
          (case until (CHR '')'') r of
             Some (url, r') \<Rightarrow> Some ([RText txt (Some url) None], r')
           | None \<Rightarrow> None)
      | None \<Rightarrow> None)))))"

lemma until_shorter: "until d s = Some (run, r) \<Longrightarrow> length r < length s"
proof -
  assume "until d s = Some (run, r)"
  then have r: "r = tl (dropWhile (\<lambda>c. c \<noteq> d) s)" and ne: "dropWhile (\<lambda>c. c \<noteq> d) s \<noteq> []"
    by (auto simp: until_def Let_def split: if_splits)
  have "length (dropWhile (\<lambda>c. c \<noteq> d) s) \<le> length s"
    by (rule length_dropWhile_le)
  with r ne show ?thesis
    by (cases "dropWhile (\<lambda>c. c \<noteq> d) s") auto
qed

lemma delimited_shorter:
  "delimited opening d closing s = Some (body, r) \<Longrightarrow> length r < length s"
  unfolding delimited_def
  by (auto split: option.splits if_splits dest!: until_shorter)

lemma match_markup_shorter: "match_markup s = Some (items, r) \<Longrightarrow> length r < length s"
  unfolding match_markup_def
  by (auto split: option.splits dest!: delimited_shorter until_shorter)

text \<open>
  The loop over \<^verbatim>\<open>pattern.finditer(text)\<close>. \<open>plain\<close> is the text since \<^verbatim>\<open>last_end\<close>
  that no match has covered; the plain text before a match, and the one left at the
  end, goes through \<^verbatim>\<open>_chunk_text\<close>.
\<close>

function scan_rich_text :: "string \<Rightarrow> string \<Rightarrow> rich_text list" where
  "scan_rich_text plain [] = chunk_text plain None"
| "scan_rich_text plain (c # cs) =
     (case match_markup (c # cs) of
        Some (items, r) \<Rightarrow> chunk_text plain None @ items @ scan_rich_text [] r
      | None \<Rightarrow> scan_rich_text (plain @ [c]) cs)"
  by pat_completeness auto
termination
  by (relation "measure (\<lambda>(plain, s). length s)") (auto dest: match_markup_shorter)

definition parse_rich_text :: "string \<Rightarrow> rich_text list" where
  "parse_rich_text text =
     (let rt = scan_rich_text [] text
      in if rt = [] then [RText text None None] else rt)"

subsection \<open>\<^verbatim>\<open>build_blocks\<close>\<close>

abbreviation FENCE :: string where "FENCE \<equiv> [BACKTICK, BACKTICK, BACKTICK]"

definition header_match :: "string \<Rightarrow> (nat \<times> string) option" where
  \<comment> \<open>\<^verbatim>\<open>re.match(r'^(#{1,3})\s+(.*)', stripped)\<close>: the level and \<^verbatim>\<open>group(2)\<close>; a fourth
      \<^verbatim>\<open>#\<close> cannot match \<^verbatim>\<open>\s\<close>, and \<^verbatim>\<open>.\<close> stops at a newline\<close>
  "header_match s =
     (let level = length (takeWhile (\<lambda>c. c = CHR ''#'') s); r = drop level s
      in if 1 \<le> level \<and> level \<le> 3 \<and> r \<noteq> [] \<and> py_isspace (hd r)
         then Some (level, takeWhile (\<lambda>c. c \<noteq> NL) (dropWhile py_isspace r))
         else None)"

definition numbered_match :: "string \<Rightarrow> string option" where
  \<comment> \<open>\<^verbatim>\<open>re.match(r'^\d+\.\s+(.*)', stripped)\<close>: \<^verbatim>\<open>group(1)\<close>\<close>
  "numbered_match s =
     (let r = dropWhile re_digit s
      in if takeWhile re_digit s \<noteq> [] \<and> startswith ''.'' r \<and> drop 1 r \<noteq> []
            \<and> py_isspace (hd (drop 1 r))
         then Some (takeWhile (\<lambda>c. c \<noteq> NL) (dropWhile py_isspace (drop 1 r)))
         else None)"

definition is_divider :: "string \<Rightarrow> bool" where
  "is_divider s = (s = ''---'' \<or> s = ''***'' \<or> s = ''___'')"

text \<open>The loop that collects an equation: it stops at a line that is \<^verbatim>\<open>$$\<close> once
  stripped, at the end of the lines, or when 50 lines are collected.\<close>

fun collect_equation :: "string list \<Rightarrow> string list \<Rightarrow> bool \<times> string list \<times> string list" where
  "collect_equation math_lines [] = (False, math_lines, [])"
| "collect_equation math_lines (l # ls) =
     (if length math_lines < 50 then
        (if strip l = ''$$'' then (True, math_lines, ls)
         else collect_equation (math_lines @ [l]) ls)
      else (False, math_lines, l # ls))"

lemma collect_equation_rest_le:
  "collect_equation ml ls = (found, ml', rest) \<Longrightarrow> length rest \<le> length ls"
proof (induction ls arbitrary: ml)
  case Nil
  then show ?case by simp
next
  case (Cons l ls)
  show ?case
  proof (cases "collect_equation (ml @ [l]) ls = (found, ml', rest)")
    case True
    from Cons.IH[OF True] show ?thesis by simp
  next
    case False
    with Cons.prems show ?thesis
      by (auto split: if_splits)
  qed
qed

definition in_code :: "string \<Rightarrow> bool" where
  \<comment> \<open>the condition of the loop that collects a code block\<close>
  "in_code l = (\<not> startswith FENCE (strip l))"

definition in_quote :: "string \<Rightarrow> bool" where
  \<comment> \<open>the condition of the loop that collects a quote\<close>
  "in_quote l = startswith ''> '' (strip l)"

definition in_paragraph :: "string \<Rightarrow> bool" where
  \<comment> \<open>the loop that collects a paragraph goes on while the next line does not break it\<close>
  "in_paragraph l =
     (let next_s = strip l in
      \<not> (next_s = [] \<or> startswith ''#'' next_s \<or> startswith ''- '' next_s
         \<or> startswith ''* '' next_s \<or> next_s = ''$$'' \<or> startswith FENCE next_s
         \<or> startswith ''> '' next_s \<or> is_divider next_s \<or> numbered_match next_s \<noteq> None))"

lemma dropWhile_minus_one_le: "length (dropWhile P xs) - Suc 0 \<le> length xs"
  using length_dropWhile_le[of P xs] by simp

text \<open>The main loop, over the lines from index \<^verbatim>\<open>i\<close> on; it returns what is appended to
  \<^verbatim>\<open>blocks\<close>.\<close>

function build_blocks_lines :: "string list \<Rightarrow> block list" where
  "build_blocks_lines [] = []"
| "build_blocks_lines (line # rest) =
     (let stripped = strip line in
      if stripped = [] then build_blocks_lines rest
      else if stripped = ''$$'' then
        (case collect_equation [] rest of
           (found_closing, math_lines, rest') \<Rightarrow>
             (if found_closing then equation_block (strip (py_join [NL] math_lines))
              else text_block Paragraph (parse_rich_text (''$$'' @ py_join '' '' math_lines)))
             # build_blocks_lines rest')
      else if startswith FENCE stripped then
        (let lang = strip (drop 3 stripped); code_lines = takeWhile in_code rest
         in code_block (py_join [NL] code_lines) (if lang \<noteq> [] then lang else ''plain text'')
              # build_blocks_lines (drop 1 (dropWhile in_code rest)))
      else if is_divider stripped then divider_block # build_blocks_lines rest
      else
        (case header_match stripped of
           Some (level, title) \<Rightarrow>
             text_block (Heading level) (parse_rich_text title) # build_blocks_lines rest
         | None \<Rightarrow>
             if startswith ''> '' stripped then
               (let quote_lines = drop 2 stripped # map (\<lambda>l. drop 2 (strip l)) (takeWhile in_quote rest)
                in text_block Quote (parse_rich_text (py_join '' '' quote_lines))
                     # build_blocks_lines (dropWhile in_quote rest))
             else if startswith ''- '' stripped \<or> startswith ''* '' stripped then
               text_block BulletedListItem (parse_rich_text (drop 2 stripped))
                 # build_blocks_lines rest
             else
               (case numbered_match stripped of
                  Some item \<Rightarrow>
                    text_block NumberedListItem (parse_rich_text item) # build_blocks_lines rest
                | None \<Rightarrow>
                    (let para_lines = stripped # map strip (takeWhile in_paragraph rest)
                     in text_block Paragraph (parse_rich_text (py_join '' '' para_lines))
                          # build_blocks_lines (dropWhile in_paragraph rest)))))"
  by pat_completeness auto
termination
  by (relation "measure length")
    (auto simp: less_Suc_eq_le length_dropWhile_le dropWhile_minus_one_le
          dest!: collect_equation_rest_le[OF sym])

declare build_blocks_lines.simps(2) [simp del]

subsection \<open>\<^verbatim>\<open>_split_block_if_needed\<close> and the last loop of \<^verbatim>\<open>build_blocks\<close>\<close>

text \<open>The slices \<^verbatim>\<open>rich_text[i:i + 100]\<close> for \<^verbatim>\<open>i in range(0, len(rich_text), 100)\<close>.\<close>

function slices :: "'a list \<Rightarrow> 'a list list" where
  "slices xs =
     (if xs = [] then []
      else take MAX_RICH_TEXT_ELEMENTS xs # slices (drop MAX_RICH_TEXT_ELEMENTS xs))"
  by pat_completeness auto
termination
  by (relation "measure length") auto

declare slices.simps [simp del]

definition split_block_if_needed :: "block \<Rightarrow> block list" where
  "split_block_if_needed b =
     (case rich_text b of
        None \<Rightarrow> [b]
      | Some rt \<Rightarrow>
          if rt = [] \<or> length rt \<le> MAX_RICH_TEXT_ELEMENTS then [b]
          else map (\<lambda>chunk. \<lparr>btype = btype b, rich_text = Some chunk, attrs = attrs b\<rparr>)
                 (slices rt))"

definition split_blocks :: "block list \<Rightarrow> block list" where
  \<comment> \<open>\<^verbatim>\<open>for block in blocks: final_blocks.extend(self._split_block_if_needed(block))\<close>\<close>
  "split_blocks blocks = concat (map split_block_if_needed blocks)"

definition build_blocks :: "string \<Rightarrow> block list" where
  "build_blocks text = split_blocks (build_blocks_lines (split_nl text))"

section \<open>The delivery engine: \<^verbatim>\<open>NotionClient\<close>\<close>

text \<open>
  The remote system is a parameter. A request is one of the two HTTP calls the client
  makes; the remote answers from a state \<open>'w\<close> of its own, which it may change, with
  \<open>None\<close> for a status other than 200 and \<open>Some data\<close> for status 200, where \<open>data\<close>
  stands for the body \<^verbatim>\<open>resp.json()\<close>. What the client does is recorded as a list of
  events, in order: the requests it sends, each with whether the status was 200, and its
  calls of \<^verbatim>\<open>time.sleep\<close>, in milliseconds. Logging is left out.
\<close>

datatype request =
    PostPage string string "block list"  \<comment> \<open>parent page, title, children\<close>
  | PatchChildren string "block list"    \<comment> \<open>page, children\<close>

datatype event = Sent request bool | Slept nat

type_synonym 'w remote = "request \<Rightarrow> 'w \<Rightarrow> string option \<times> 'w"

abbreviation MAX_BLOCKS_PER_REQUEST :: nat where "MAX_BLOCKS_PER_REQUEST \<equiv> 100"

text \<open>The loop of \<^verbatim>\<open>_append_blocks\<close> that sends the blocks of a failed batch one by one.\<close>

fun retry_each :: "'w remote \<Rightarrow> string \<Rightarrow> block list \<Rightarrow> 'w \<Rightarrow> event list \<times> 'w" where
  "retry_each remote page_id [] w = ([], w)"
| "retry_each remote page_id (b # bs) w =
     (case remote (PatchChildren page_id [b]) w of
        (resp, w') \<Rightarrow>
          (case retry_each remote page_id bs w' of
             (evs, w'') \<Rightarrow>
               (if resp = None then Sent (PatchChildren page_id [b]) False # evs
                else Sent (PatchChildren page_id [b]) True # Slept 150 # evs, w'')))"

definition append_blocks :: "'w remote \<Rightarrow> string \<Rightarrow> block list \<Rightarrow> 'w \<Rightarrow> event list \<times> 'w" where
  "append_blocks remote page_id blocks w =
     (case remote (PatchChildren page_id blocks) w of
        (resp, w') \<Rightarrow>
          if resp \<noteq> None then ([Sent (PatchChildren page_id blocks) True], w')
          else (case retry_each remote page_id blocks w' of
                  (evs, w'') \<Rightarrow> (Sent (PatchChildren page_id blocks) False # evs, w'')))"

text \<open>The loop of \<^verbatim>\<open>create_page\<close> over \<^verbatim>\<open>remaining\<close>.\<close>

function append_remaining :: "'w remote \<Rightarrow> string \<Rightarrow> block list \<Rightarrow> 'w \<Rightarrow> event list \<times> 'w" where
  "append_remaining remote page_id remaining w =
     (if remaining = [] then ([], w)
      else
        (case append_blocks remote page_id (take MAX_BLOCKS_PER_REQUEST remaining) w of
           (evs, w') \<Rightarrow>
             (case append_remaining remote page_id (drop MAX_BLOCKS_PER_REQUEST remaining) w' of
                (evs', w'') \<Rightarrow> (evs @ Slept 350 # evs', w''))))"
  by pat_completeness auto
termination
  by (relation "measure (\<lambda>(remote, page_id, remaining, w). length remaining)") auto

declare append_remaining.simps [simp del]

text \<open>
  \<^verbatim>\<open>create_page\<close>: the result is \<open>None\<close> where the Python returns \<^verbatim>\<open>None\<close> and
  \<open>Some data\<close> where it returns the body of the response that created the page; the
  page id \<^verbatim>\<open>data["id"]\<close> is \<open>data\<close> itself.
\<close>

definition create_page ::
  "'w remote \<Rightarrow> string \<Rightarrow> block list \<Rightarrow> string \<Rightarrow> 'w \<Rightarrow> string option \<times> event list \<times> 'w" where
  "create_page remote title blocks parent_page_id w =
     (let first_batch = take 100 blocks in
      case remote (PostPage parent_page_id title first_batch) w of
        (Some data, w1) \<Rightarrow>
          (case append_remaining remote data (drop 100 blocks) w1 of
             (evs, w2) \<Rightarrow>
               (Some data, Sent (PostPage parent_page_id title first_batch) True # evs, w2))
      | (None, w1) \<Rightarrow>
          (case remote (PostPage parent_page_id title []) w1 of
             (None, w2) \<Rightarrow>
               (None, [Sent (PostPage parent_page_id title first_batch) False,
                       Sent (PostPage parent_page_id title []) False], w2)
           | (Some data, w2) \<Rightarrow>
               (case append_remaining remote data blocks w2 of
                  (evs, w3) \<Rightarrow>
                    (Some data,
                     Sent (PostPage parent_page_id title first_batch) False
                       # Sent (PostPage parent_page_id title []) True # evs, w3))))"

subsection \<open>The answers of the remote to the blocks sent one by one\<close>

text \<open>Whether the remote, from the state \<open>w\<close>, accepts each block of the list when they
  are sent alone and in order, each request answered from the state the one before has
  left.\<close>

fun answers :: "'w remote \<Rightarrow> string \<Rightarrow> block list \<Rightarrow> 'w \<Rightarrow> bool list" where
  "answers remote page_id [] w = []"
| "answers remote page_id (b # bs) w =
     (case remote (PatchChildren page_id [b]) w of
        (resp, w') \<Rightarrow> (resp \<noteq> None) # answers remote page_id bs w')"

subsection \<open>Remote systems used as examples\<close>

text \<open>Three remotes without a state of their own: one refuses every request, one accepts
  every request, and one refuses to create a page with initial content but accepts
  everything else.\<close>

definition refuse_all :: "unit remote" where
  "refuse_all req w = (None, w)"

definition accept_all :: "unit remote" where
  "accept_all req w = (Some ''page-1'', w)"

definition refuse_content :: "unit remote" where
  "refuse_content req w =
     (case req of
        PostPage parent title children \<Rightarrow> if children = [] then Some ''page-1'' else None
      | PatchChildren page children \<Rightarrow> Some [], w)"

text \<open>A remote that refuses a single block exactly when it is a divider, and every batch
  of another size.\<close>

definition refuse_dividers :: "unit remote" where
  "refuse_dividers req w =
     (case req of
        PatchChildren page [b] \<Rightarrow> if btype b = Divider then None else Some []
      | _ \<Rightarrow> None, w)"

subsection \<open>Documents used as examples\<close>

text \<open>An input of the normalizer: the text \<open>a\<close>, then \<open>n\<close> newlines, a block formula
  \<open>f\<close> in the canonical three lines, \<open>n\<close> newlines and the text \<open>b\<close>. With \<open>n = 1\<close> the
  formula follows the text directly, with \<open>n = 2\<close> one empty line separates them, with
  \<open>n = 3\<close> two empty lines.\<close>

definition block_math_document :: "string \<Rightarrow> nat \<Rightarrow> string \<Rightarrow> string \<Rightarrow> string" where
  "block_math_document a n f b =
     a @ replicate n NL @ ''$$'' @ [NL] @ f @ [NL] @ ''$$'' @ replicate n NL @ b"

subsection \<open>The limit on the length of a text, as a predicate\<close>

text \<open>A rich-text element is within the limit when it is an equation, a link, or a text of
  at most \<^verbatim>\<open>MAX_TEXT_LENGTH\<close> characters; a block is when it is a code block or all its
  elements are.\<close>

definition within_limit :: "rich_text \<Rightarrow> bool" where
  "within_limit r =
     (case r of RText c l a \<Rightarrow> l \<noteq> None \<or> length c \<le> MAX_TEXT_LENGTH | REquation e \<Rightarrow> True)"

definition block_within_limit :: "block \<Rightarrow> bool" where
  "block_within_limit b =
     (btype b = Code \<or> (case rich_text b of None \<Rightarrow> True | Some rt \<Rightarrow> list_all within_limit rt))"

subsection \<open>The text of an element, and a text without its markup characters\<close>

text \<open>What an element holds of the text it was parsed from: its content, followed by the
  address of the link if it has one, or its expression. The markup characters are those
  the patterns of \<^verbatim>\<open>_parse_rich_text\<close> are written with.\<close>

fun element_text :: "rich_text \<Rightarrow> string" where
  "element_text (RText c l a) = c @ (case l of None \<Rightarrow> [] | Some url \<Rightarrow> url)"
| "element_text (REquation e) = e"

definition markup_character :: "char \<Rightarrow> bool" where
  "markup_character c =
     (c \<in> set [DOLLAR, BACKTICK, CHR ''*'', CHR ''['', CHR '']'', CHR ''('', CHR '')''])"

definition unmarked :: "string \<Rightarrow> string" where
  "unmarked s = filter (\<lambda>c. \<not> markup_character c) s"

section \<open>Facts about the string operations\<close>

lemma split_nl_no_nl: "NL \<notin> set a \<Longrightarrow> split_nl a = [a]"
  by (induction a) (auto simp: Let_def)

lemma split_nl_append: "NL \<notin> set a \<Longrightarrow> split_nl (a @ NL # b) = a # split_nl b"
  by (induction a) (auto simp: Let_def)

lemma py_join_Cons: "ls \<noteq> [] \<Longrightarrow> py_join sep (l # ls) = l @ sep @ py_join sep ls"
  by (cases ls) auto

lemma split_nl_join:
  "ls \<noteq> [] \<Longrightarrow> \<forall>l\<in>set ls. NL \<notin> set l \<Longrightarrow> split_nl (py_join [NL] ls) = ls"
proof (induction ls)
  case Nil
  then show ?case by simp
next
  case (Cons l ls)
  show ?case
  proof (cases "ls = []")
    case True
    with Cons.prems show ?thesis by (simp add: split_nl_no_nl)
  next
    case False
    with Cons show ?thesis by (simp add: py_join_Cons split_nl_append)
  qed
qed

lemma strip_Nil [simp]: "lstrip [] = []" "rstrip [] = []" "strip [] = []"
  by (simp_all add: lstrip_def rstrip_def strip_def)

lemma lstrip_Cons: "\<not> py_isspace c \<Longrightarrow> lstrip (c # s) = c # s"
  by (simp add: lstrip_def)

lemma rstrip_snoc: "\<not> py_isspace c \<Longrightarrow> rstrip (s @ [c]) = s @ [c]"
  by (simp add: rstrip_def)

lemma lstrip_append: "\<exists>x\<in>set a. \<not> py_isspace x \<Longrightarrow> lstrip (a @ b) = lstrip a @ b"
  by (auto simp: lstrip_def dropWhile_append1)

lemma rstrip_append: "\<exists>x\<in>set b. \<not> py_isspace x \<Longrightarrow> rstrip (a @ b) = a @ rstrip b"
  by (auto simp: rstrip_def dropWhile_append1)

lemma lstrip_blank: "\<forall>x\<in>set a. py_isspace x \<Longrightarrow> lstrip (a @ b) = lstrip b"
  by (simp add: lstrip_def dropWhile_append2)

lemma rstrip_blank: "\<forall>x\<in>set b. py_isspace x \<Longrightarrow> rstrip (a @ b) = rstrip a"
  using dropWhile_append2[of "rev b" py_isspace "rev a"] by (simp add: rstrip_def)

lemma set_lstrip: "set (lstrip s) \<subseteq> set s"
  by (simp add: lstrip_def set_dropWhileD subsetI)

lemma lstrip_eq_Nil: "lstrip s = [] \<longleftrightarrow> (\<forall>x\<in>set s. py_isspace x)"
  by (simp add: lstrip_def dropWhile_eq_Nil_conv)

lemma rstrip_eq_Nil: "rstrip s = [] \<longleftrightarrow> (\<forall>x\<in>set s. py_isspace x)"
  by (simp add: rstrip_def dropWhile_eq_Nil_conv)

lemma hd_lstrip: "lstrip s \<noteq> [] \<Longrightarrow> \<not> py_isspace (hd (lstrip s))"
  by (simp add: lstrip_def hd_dropWhile)

lemma last_rstrip: "rstrip s \<noteq> [] \<Longrightarrow> \<not> py_isspace (last (rstrip s))"
  by (simp add: rstrip_def last_rev hd_dropWhile)

lemma lstrip_id: "s = [] \<or> \<not> py_isspace (hd s) \<Longrightarrow> lstrip s = s"
  by (cases s) (auto simp: lstrip_def)

lemma rstrip_id: "s = [] \<or> \<not> py_isspace (last s) \<Longrightarrow> rstrip s = s"
  by (cases s rule: rev_cases) (auto simp: rstrip_def)

lemma lstrip_decomp: "\<exists>ws. (\<forall>x\<in>set ws. py_isspace x) \<and> s = ws @ lstrip s"
  by (rule exI[of _ "takeWhile py_isspace s"]) (auto simp: lstrip_def dest: set_takeWhileD)

lemma rstrip_decomp: "\<exists>ws. (\<forall>x\<in>set ws. py_isspace x) \<and> s = rstrip s @ ws"
proof -
  have "rev s = takeWhile py_isspace (rev s) @ dropWhile py_isspace (rev s)" by simp
  then have "s = rev (dropWhile py_isspace (rev s)) @ rev (takeWhile py_isspace (rev s))"
    by (metis rev_append rev_rev_ident)
  then show ?thesis
    by (intro exI[of _ "rev (takeWhile py_isspace (rev s))"]) (auto simp: rstrip_def dest: set_takeWhileD)
qed

lemma strip_eq_Nil: "strip s = [] \<longleftrightarrow> (\<forall>x\<in>set s. py_isspace x)"
proof
  assume "strip s = []"
  then have a: "\<forall>x\<in>set (rstrip s). py_isspace x" by (simp add: strip_def lstrip_eq_Nil)
  obtain ws where "\<forall>x\<in>set ws. py_isspace x" "s = rstrip s @ ws" using rstrip_decomp by blast
  with a show "\<forall>x\<in>set s. py_isspace x" by (metis Un_iff set_append)
next
  assume "\<forall>x\<in>set s. py_isspace x"
  then have "rstrip s = []" by (simp add: rstrip_eq_Nil)
  then show "strip s = []" by (simp add: strip_def lstrip_def)
qed

lemma strip_commute: "strip s = rstrip (lstrip s)"
proof (cases "\<forall>x\<in>set s. py_isspace x")
  case True
  then have "lstrip s = []" "rstrip s = []" by (simp_all add: lstrip_eq_Nil rstrip_eq_Nil)
  then show ?thesis by (simp add: strip_def)
next
  case False
  obtain a where a: "\<forall>x\<in>set a. py_isspace x" "s = a @ lstrip s" using lstrip_decomp by blast
  obtain b where b: "\<forall>x\<in>set b. py_isspace x" "s = rstrip s @ b" using rstrip_decomp by blast
  from False a have nb: "\<exists>x\<in>set (lstrip s). \<not> py_isspace x" by (metis Un_iff set_append)
  have "rstrip s = rstrip (a @ lstrip s)" using a(2) by simp
  also have "\<dots> = a @ rstrip (lstrip s)" using nb by (rule rstrip_append)
  finally have r: "rstrip s = a @ rstrip (lstrip s)" .
  have "strip s = lstrip (a @ rstrip (lstrip s))" by (simp add: strip_def r)
  also have "\<dots> = lstrip (rstrip (lstrip s))" using a(1) by (rule lstrip_blank)
  also have "\<dots> = rstrip (lstrip s)"
  proof (rule lstrip_id)
    have ne: "rstrip (lstrip s) \<noteq> []" using nb by (simp add: rstrip_eq_Nil)
    obtain c where c: "\<forall>x\<in>set c. py_isspace x" "lstrip s = rstrip (lstrip s) @ c"
      using rstrip_decomp by blast
    have "lstrip s \<noteq> []" using nb by auto
    then have "\<not> py_isspace (hd (lstrip s))" by (rule hd_lstrip)
    moreover have "hd (lstrip s) = hd (rstrip (lstrip s))" using c(2) ne by (metis hd_append2)
    ultimately show "rstrip (lstrip s) = [] \<or> \<not> py_isspace (hd (rstrip (lstrip s)))" by simp
  qed
  finally show ?thesis .
qed

lemma strip_id: "s \<noteq> [] \<Longrightarrow> \<not> py_isspace (hd s) \<Longrightarrow> \<not> py_isspace (last s) \<Longrightarrow> strip s = s"
  by (simp add: strip_def rstrip_id lstrip_id)

lemma strip_ends:
  assumes "strip s \<noteq> []"
  shows "\<not> py_isspace (hd (strip s))" and "\<not> py_isspace (last (strip s))"
proof -
  show "\<not> py_isspace (hd (strip s))" using assms unfolding strip_def by (rule hd_lstrip)
  show "\<not> py_isspace (last (strip s))" using assms unfolding strip_commute by (rule last_rstrip)
qed

lemma strip_strip: "strip (strip s) = strip s"
proof (cases "strip s = []")
  case True
  then show ?thesis by simp
next
  case False
  then show ?thesis by (simp add: strip_id strip_ends)
qed

lemma not_space_simps [simp]:
  "\<not> py_isspace DOLLAR" "\<not> py_isspace BACKTICK" "py_isspace NL" "py_isspace (CHR '' '')"
  by (simp_all add: py_isspace_def)

lemma startswith_Nil [simp]: "startswith [] s"
  by (simp add: startswith_def)

lemma startswith_Cons_Nil [simp]: "\<not> startswith (c # p) []"
  by (simp add: startswith_def)

lemma startswith_Cons [simp]: "startswith (c # p) (d # s) \<longleftrightarrow> c = d \<and> startswith p s"
  by (auto simp: startswith_def)

lemma startswith_append [simp]: "startswith p (p @ s)"
  by (simp add: startswith_def)

lemma takeWhile_all: "\<forall>x\<in>set xs. P x \<Longrightarrow> takeWhile P (xs @ ys) = xs @ takeWhile P ys"
  by (induction xs) auto

lemma dropWhile_all: "\<forall>x\<in>set xs. P x \<Longrightarrow> dropWhile P (xs @ ys) = dropWhile P ys"
  by (induction xs) auto

lemma code_fence_block:
  assumes fence: "startswith FENCE (strip line)"
    and body: "\<forall>l\<in>set body. in_code l"
    and rest: "rest = [] \<or> \<not> in_code (hd rest)"
  shows "build_blocks_lines (line # body @ rest) =
           code_block (py_join [NL] body)
             (if strip (drop 3 (strip line)) \<noteq> [] then strip (drop 3 (strip line)) else ''plain text'')
           # build_blocks_lines (drop 1 rest)"
proof -
  from fence have ne: "strip line \<noteq> []" "strip line \<noteq> ''$$''"
    by (auto simp: startswith_def)
  from rest have tw: "takeWhile in_code rest = []" and dw: "dropWhile in_code rest = rest"
    by (cases rest; simp)+
  from body have "takeWhile in_code (body @ rest) = body" "dropWhile in_code (body @ rest) = rest"
    by (simp_all add: takeWhile_all dropWhile_all tw dw)
  with ne fence show ?thesis
    by (simp add: build_blocks_lines.simps(2) Let_def)
qed

lemma split_block_code [simp]: "split_block_if_needed (code_block c l) = [code_block c l]"
  by (simp add: split_block_if_needed_def code_block_def)

section \<open>Facts about the block builder\<close>

lemma collect_equation_found:
  "\<forall>m\<in>set ms. strip m \<noteq> ''$$'' \<Longrightarrow> length acc + length ms < 50 \<Longrightarrow> strip c = ''$$'' \<Longrightarrow>
   collect_equation acc (ms @ c # rest) = (True, acc @ ms, rest)"
  by (induction ms arbitrary: acc) auto

lemma collect_equation_bound:
  "\<forall>m\<in>set ms. strip m \<noteq> ''$$'' \<Longrightarrow> length acc + length ms = 50 \<Longrightarrow>
   collect_equation acc (ms @ rest) = (False, acc @ ms, rest)"
proof (induction ms arbitrary: acc)
  case Nil
  then show ?case by (cases rest) auto
next
  case (Cons m ms)
  then show ?case by auto
qed

lemma collect_equation_end:
  "\<forall>m\<in>set ms. strip m \<noteq> ''$$'' \<Longrightarrow> length acc + length ms \<le> 50 \<Longrightarrow>
   collect_equation acc ms = (False, acc @ ms, [])"
  by (induction ms arbitrary: acc) auto

lemma concat_chunk_text: "concat (map text_content (chunk_text s a)) = s"
proof (induction s a rule: chunk_text.induct)
  case (1 content annotations)
  show ?case
  proof (cases "content = []")
    case True
    then show ?thesis by (simp add: chunk_text.simps)
  next
    case False
    with 1 show ?thesis
      by (subst chunk_text.simps) simp
  qed
qed

lemma chunk_text_eq_Nil: "chunk_text s a = [] \<longleftrightarrow> s = []"
  by (subst chunk_text.simps) simp

lemma delimited_None:
  "opening \<noteq> [] \<Longrightarrow> hd opening \<notin> set s \<Longrightarrow> delimited opening d closing s = None"
  by (cases "opening"; cases s) (auto simp: delimited_def)

lemma delimited_None2:
  "BACKTICK \<notin> set s \<Longrightarrow> delimited [DOLLAR, BACKTICK] d closing s = None"
  by (cases s; cases "tl s") (auto simp: delimited_def)

lemma match_markup_plain:
  "set s \<inter> {CHR ''*'', BACKTICK, CHR ''[''} = {} \<Longrightarrow> match_markup s = None"
  by (simp add: match_markup_def delimited_None delimited_None2)

lemma scan_rich_text_plain:
  "set s \<inter> {CHR ''*'', BACKTICK, CHR ''[''} = {} \<Longrightarrow>
   scan_rich_text plain s = chunk_text (plain @ s) None"
proof (induction s arbitrary: plain)
  case Nil
  then show ?case by simp
next
  case (Cons c cs)
  from Cons.prems have "match_markup (c # cs) = None" by (rule match_markup_plain)
  moreover from Cons.prems have "set cs \<inter> {CHR ''*'', BACKTICK, CHR ''[''} = {}" by auto
  ultimately show ?case using Cons.IH[of "plain @ [c]"] by simp
qed

lemma parse_rich_text_plain:
  "set s \<inter> {CHR ''*'', BACKTICK, CHR ''[''} = {} \<Longrightarrow>
   concat (map text_content (parse_rich_text s)) = s"
  by (simp add: parse_rich_text_def scan_rich_text_plain Let_def concat_chunk_text chunk_text_eq_Nil)

lemma set_py_join: "set (py_join sep ls) \<subseteq> set sep \<union> set (concat ls)"
  by (induction sep ls rule: py_join.induct) auto

section \<open>Facts about the splitting of blocks\<close>

lemma slices_Nil [simp]: "slices [] = []"
  by (simp add: slices.simps)

lemma slices_nonempty: "xs \<noteq> [] \<Longrightarrow> slices xs = take 100 xs # slices (drop 100 xs)"
  by (subst slices.simps) simp

lemma concat_slices: "concat (slices xs) = xs"
proof (induction xs rule: slices.induct)
  case (1 xs)
  then show ?case by (cases "xs = []") (simp_all add: slices_nonempty)
qed

lemma slices_length_le: "c \<in> set (slices xs) \<Longrightarrow> length c \<le> 100 \<and> c \<noteq> []"
proof (induction xs rule: slices.induct)
  case (1 xs)
  then show ?case by (cases "xs = []") (auto simp: slices_nonempty)
qed

lemma ceil_step: "0 < n \<Longrightarrow> Suc ((n - 100 + 99) div 100) = (n + 99) div (100::nat)"
proof (cases "n \<le> 100")
  case True
  assume "0 < n"
  with True have "(n + 99) div 100 = 1" by (simp add: div_eq_dividend_iff Suc_le_eq div_nat_eqI)
  with True show ?thesis by simp
next
  case False
  then obtain m where m: "n = m + 100" by (metis add.commute le_Suc_ex nat_le_linear)
  show ?thesis unfolding m by simp
qed

lemma length_slices: "length (slices xs) = (length xs + 99) div 100"
proof (induction xs rule: slices.induct)
  case (1 xs)
  show ?case
  proof (cases "xs = []")
    case True
    then show ?thesis by simp
  next
    case False
    have "length (slices xs) = Suc (length (slices (drop 100 xs)))"
      using False by (simp add: slices_nonempty)
    also have "\<dots> = Suc ((length (drop 100 xs) + 99) div 100)"
      using 1 False by simp
    also have "\<dots> = Suc ((length xs - 100 + 99) div 100)"
      by simp
    also have "\<dots> = (length xs + 99) div 100"
      by (rule ceil_step) (use False in simp)
    finally show ?thesis .
  qed
qed

lemma slices_nth:
  "i < length (slices xs) \<Longrightarrow> slices xs ! i = take 100 (drop (100 * i) xs)"
proof (induction xs arbitrary: i rule: slices.induct)
  case (1 xs)
  show ?case
  proof (cases "xs = []")
    case True
    with 1 show ?thesis by simp
  next
    case False
    show ?thesis
    proof (cases i)
      case 0
      with False show ?thesis by (simp add: slices_nonempty)
    next
      case (Suc j)
      with False 1 show ?thesis by (simp add: slices_nonempty add.commute)
    qed
  qed
qed

lemma split_block_within:
  "(case rich_text b of None \<Rightarrow> True | Some rt \<Rightarrow> length rt \<le> 100) \<Longrightarrow>
   split_block_if_needed b = [b]"
  by (auto simp: split_block_if_needed_def split: option.splits)

lemma split_block_bound:
  "c \<in> set (split_block_if_needed b) \<Longrightarrow>
   (case rich_text c of None \<Rightarrow> True | Some rt \<Rightarrow> length rt \<le> 100)"
  by (auto simp: split_block_if_needed_def split: option.splits if_splits dest: slices_length_le)

lemma split_blocks_bound:
  "c \<in> set (split_blocks bs) \<Longrightarrow>
   (case rich_text c of None \<Rightarrow> True | Some rt \<Rightarrow> length rt \<le> 100)"
  by (auto simp: split_blocks_def dest: split_block_bound)

lemma split_blocks_fixed:
  "\<forall>c\<in>set bs. (case rich_text c of None \<Rightarrow> True | Some rt \<Rightarrow> length rt \<le> 100) \<Longrightarrow>
   split_blocks bs = bs"
  by (induction bs) (simp_all add: split_blocks_def split_block_within)

lemma split_blocks_idem: "split_blocks (split_blocks bs) = split_blocks bs"
  by (rule split_blocks_fixed) (blast dest: split_blocks_bound)

lemma split_blocks_append: "split_blocks (bs @ cs) = split_blocks bs @ split_blocks cs"
  by (simp add: split_blocks_def)

lemma split_block_oversized:
  assumes "rich_text b = Some rt" "100 < length rt"
  shows "split_block_if_needed b =
           map (\<lambda>i. \<lparr>btype = btype b, rich_text = Some (take 100 (drop (100 * i) rt)),
                      attrs = attrs b\<rparr>) [0..<(length rt + 99) div 100]"
proof -
  from assms have "split_block_if_needed b =
      map (\<lambda>chunk. \<lparr>btype = btype b, rich_text = Some chunk, attrs = attrs b\<rparr>) (slices rt)"
    by (auto simp: split_block_if_needed_def)
  also have "slices rt = map (\<lambda>i. take 100 (drop (100 * i) rt)) [0..<(length rt + 99) div 100]"
    by (rule nth_equalityI) (simp_all add: length_slices slices_nth)
  finally show ?thesis by (simp add: comp_def)
qed

section \<open>Facts about the delivery engine\<close>

lemma append_blocks_first:
  "append_blocks remote pid bs w = (evs, w') \<Longrightarrow>
   \<exists>ok rest. evs = Sent (PatchChildren pid bs) ok # rest"
  by (auto simp: append_blocks_def split: prod.splits if_splits)

lemma append_remaining_attempts_all:
  "append_remaining remote pid bs w = (evs, w') \<Longrightarrow> b \<in> set bs \<Longrightarrow>
   \<exists>children ok. Sent (PatchChildren pid children) ok \<in> set evs \<and> b \<in> set children"
proof (induction remote pid bs w arbitrary: evs w' rule: append_remaining.induct)
  case (1 remote pid remaining w)
  from "1.prems"(2) have ne: "remaining \<noteq> []" by auto
  obtain e1 w1 where a: "append_blocks remote pid (take 100 remaining) w = (e1, w1)"
    by (cases "append_blocks remote pid (take 100 remaining) w")
  obtain e2 w2 where r: "append_remaining remote pid (drop 100 remaining) w1 = (e2, w2)"
    by (cases "append_remaining remote pid (drop 100 remaining) w1")
  from "1.prems"(1) ne a r have evs: "evs = e1 @ Slept 350 # e2"
    by (subst (asm) append_remaining.simps) simp
  from "1.prems"(2) have "b \<in> set (take 100 remaining) \<or> b \<in> set (drop 100 remaining)"
    by (metis Un_iff append_take_drop_id set_append)
  then show ?case
  proof
    assume t: "b \<in> set (take 100 remaining)"
    from append_blocks_first[OF a] obtain ok rest
      where "e1 = Sent (PatchChildren pid (take 100 remaining)) ok # rest" by blast
    with evs t show ?thesis by auto
  next
    assume d: "b \<in> set (drop 100 remaining)"
    from "1.IH"[OF ne a[symmetric] r d] obtain children ok
      where "Sent (PatchChildren pid children) ok \<in> set e2" "b \<in> set children" by blast
    with evs show ?thesis by auto
  qed
qed

lemma retry_each_head:
  "retry_each remote pid bs w = (evs, w') \<Longrightarrow>
   evs = [] \<or> (\<exists>req ok zs. evs = Sent req ok # zs)"
  by (cases bs) (auto split: prod.splits if_splits)

lemma length_answers [simp]: "length (answers remote page_id blocks w) = length blocks"
  by (induction blocks arbitrary: w) (simp_all split: prod.splits)

lemma retry_each_events:
  "fst (retry_each remote page_id blocks w) =
     concat (map (\<lambda>(b, ok). if ok then [Sent (PatchChildren page_id [b]) True, Slept 150]
                              else [Sent (PatchChildren page_id [b]) False])
                 (zip blocks (answers remote page_id blocks w)))"
proof (induction blocks arbitrary: w)
  case Nil
  then show ?case by simp
next
  case (Cons b bs)
  obtain resp w1 where r: "remote (PatchChildren page_id [b]) w = (resp, w1)"
    by (cases "remote (PatchChildren page_id [b]) w")
  obtain evs1 w2 where t: "retry_each remote page_id bs w1 = (evs1, w2)"
    by (cases "retry_each remote page_id bs w1")
  from Cons.IH[of w1] t
  have "evs1 = concat (map (\<lambda>(b, ok). if ok then [Sent (PatchChildren page_id [b]) True, Slept 150]
                              else [Sent (PatchChildren page_id [b]) False])
                 (zip bs (answers remote page_id bs w1)))"
    by simp
  with r t show ?case by simp
qed

section \<open>Facts about the normalizer\<close>

lemma endswith_append [simp]: "endswith p (s @ p)"
  by (simp add: endswith_def)

lemma drop_last_append [simp]: "drop_last (length p) (s @ p) = s"
  by (simp add: drop_last_def)

lemma drop_last_2 [simp]: "drop_last 2 (s @ [a, b]) = s"
  by (simp add: drop_last_def)

lemma lstrip_lstrip [simp]: "lstrip (lstrip s) = lstrip s"
  by (cases "lstrip s = []") (simp_all add: lstrip_id hd_lstrip)

lemma rstrip_rstrip [simp]: "rstrip (rstrip s) = rstrip s"
  by (cases "rstrip s = []") (simp_all add: rstrip_id last_rstrip)

lemma strip_lstrip [simp]: "strip (lstrip s) = strip s"
  by (simp add: strip_commute)

lemma strip_rstrip [simp]: "strip (rstrip s) = strip s"
  by (simp add: strip_def)

lemma nonblank_iff: "strip s \<noteq> [] \<longleftrightarrow> (\<exists>x\<in>set s. \<not> py_isspace x)"
  by (simp add: strip_eq_Nil)

lemma strip_dollars [simp]: "strip ''$$'' = ''$$''"
  by (rule strip_id) simp_all


lemma strip_close: "strip f \<noteq> [] \<Longrightarrow> strip (f @ ''$$'') = lstrip f @ ''$$''"
proof -
  assume "strip f \<noteq> []"
  then have nb: "\<exists>x\<in>set f. \<not> py_isspace x" by (simp add: nonblank_iff)
  have "rstrip (f @ ''$$'') = f @ ''$$''" by (rule rstrip_id) simp
  then show ?thesis using nb by (simp add: strip_def lstrip_append)
qed


lemma strip_open: "strip f \<noteq> [] \<Longrightarrow> strip (''$$'' @ f) = ''$$'' @ rstrip f"
proof -
  assume "strip f \<noteq> []"
  then have nb: "\<exists>x\<in>set f. \<not> py_isspace x" by (simp add: nonblank_iff)
  then have "rstrip (''$$'' @ f) = ''$$'' @ rstrip f" by (rule rstrip_append)
  then show ?thesis by (simp add: strip_def lstrip_def)
qed

lemma not_endswith_imp: "\<not> endswith ''$$'' s \<Longrightarrow> s \<noteq> ''$$''"
  by (auto simp: endswith_def)



lemma spelling_standard:
  assumes "\<not> endswith ''$$'' (strip f)"
  shows "convert_block_lines [''$$'', f, ''$$''] = canonical_block (strip f)"
  using assms not_endswith_imp[OF assms]
  by (simp add: convert_block_lines.simps(2) Let_def)

lemma spelling_open_inline:
  assumes "strip f \<noteq> []" "\<not> endswith ''$$'' (strip f)"
  shows "convert_block_lines [''$$'' @ f, ''$$''] = canonical_block (strip f)"
  using assms strip_open[OF assms(1)] strip_strip[of f]
  by (simp add: convert_block_lines.simps(2) Let_def)

lemma spelling_close_inline:
  assumes "strip f \<noteq> []"
  shows "convert_block_lines [''$$'', f @ ''$$''] = canonical_block (strip f)"
proof -
  from assms have "lstrip f \<noteq> []" by (auto simp: strip_commute)
  with strip_close[OF assms] strip_strip[of f] show ?thesis
    by (simp add: convert_block_lines.simps(2) Let_def)
qed

lemma strip_first_line:
  assumes "strip f1 \<noteq> []" "rstrip f1 = f1"
  shows "strip (strip f1 @ r) = strip (f1 @ r)"
proof -
  from assms(1) have nb: "\<exists>x\<in>set f1. \<not> py_isspace x" by (simp add: nonblank_iff)
  from assms have s: "strip f1 = lstrip f1" by (simp add: strip_def)
  have ne: "lstrip f1 \<noteq> []" using assms(1) s by simp
  have "lstrip (lstrip f1 @ r) = lstrip f1 @ r"
    by (rule lstrip_id) (use ne hd_lstrip[OF ne] in simp)
  moreover have "lstrip (f1 @ r) = lstrip f1 @ r" using nb by (rule lstrip_append)
  ultimately have a: "lstrip (lstrip f1 @ r) = lstrip (f1 @ r)" by simp
  have "strip (strip f1 @ r) = strip (lstrip f1 @ r)" by (simp only: s)
  also have "\<dots> = rstrip (lstrip (lstrip f1 @ r))" by (rule strip_commute)
  also have "\<dots> = rstrip (lstrip (f1 @ r))" by (simp only: a)
  also have "\<dots> = strip (f1 @ r)" by (rule strip_commute[symmetric])
  finally show ?thesis .
qed

lemma spelling_leading_content:
  assumes "strip f1 \<noteq> []" "\<not> endswith ''$$'' (strip f1)" "rstrip f1 = f1"
    and "\<not> endswith ''$$'' (strip f2)"
  shows "convert_block_lines [''$$'' @ f1, f2, ''$$''] = canonical_block (strip (f1 @ NL # f2))"
  using assms(1,2,4) strip_open[OF assms(1)] not_endswith_imp[OF assms(4)]
    strip_first_line[OF assms(1,3), of "NL # f2"]
  by (simp add: convert_block_lines.simps(2) Let_def)

lemma spelling_standard_two_lines:
  assumes "\<not> endswith ''$$'' (strip f1)" "\<not> endswith ''$$'' (strip f2)"
  shows "convert_block_lines [''$$'', f1, f2, ''$$''] = canonical_block (strip (f1 @ NL # f2))"
  using assms not_endswith_imp[OF assms(1)] not_endswith_imp[OF assms(2)]
  by (simp add: convert_block_lines.simps(2) Let_def)


lemma convert_block_math_lines:
  "ls \<noteq> [] \<Longrightarrow> \<forall>l\<in>set ls. NL \<notin> set l \<Longrightarrow>
   convert_block_math (py_join [NL] ls) = py_join [NL] (convert_block_lines ls)"
  by (simp add: convert_block_math_def split_nl_join)

lemma find_close_plain:
  "DOLLAR \<notin> set c \<Longrightarrow> NL \<notin> set c \<Longrightarrow> (c = [] \<longrightarrow> prev \<noteq> DOLLAR) \<Longrightarrow>
   \<not> startswith ''$'' post \<Longrightarrow> find_close prev (c @ DOLLAR # post) = Some (c, post)"
proof (induction c arbitrary: prev)
  case Nil
  then show ?case by simp
next
  case (Cons y ys)
  from Cons.prems have y: "y \<noteq> DOLLAR" "y \<noteq> NL" by auto
  from Cons.prems y have "find_close y (ys @ DOLLAR # post) = Some (ys, post)"
    by (intro Cons.IH) auto
  with y show ?case by simp
qed

lemma match_inline_plain:
  assumes "c \<noteq> []" "DOLLAR \<notin> set c" "NL \<notin> set c" "prev \<noteq> Some DOLLAR"
    "\<not> startswith ''$'' post"
  shows "match_inline prev (DOLLAR # c @ DOLLAR # post) = Some (c, post)"
proof -
  from assms(1) obtain y ys where c: "c = y # ys" by (cases c) auto
  with assms have "find_close y (ys @ DOLLAR # post) = Some (ys, post)"
    by (intro find_close_plain) auto
  with c assms show ?thesis by auto
qed

lemma match_inline_no_dollar: "hd s \<noteq> DOLLAR \<Longrightarrow> match_inline prev s = None"
  by (cases "(prev, s)" rule: match_inline.cases) auto

lemma sub_inline_from_prefix:
  "DOLLAR \<notin> set pre \<Longrightarrow>
   sub_inline_from prev (pre @ s) =
     pre @ sub_inline_from (if pre = [] then prev else Some (last pre)) s"
proof (induction pre arbitrary: prev)
  case Nil
  then show ?case by simp
next
  case (Cons x pre)
  then have "match_inline prev (x # pre @ s) = None"
    by (intro match_inline_no_dollar) auto
  with Cons show ?case by (simp del: match_inline.simps)
qed

lemma sub_inline_from_plain: "DOLLAR \<notin> set s \<Longrightarrow> sub_inline_from prev s = s"
  using sub_inline_from_prefix[of s prev "[]"] by simp

lemma sub_inline_one_span:
  assumes "DOLLAR \<notin> set pre" "c \<noteq> []" "DOLLAR \<notin> set c" "NL \<notin> set c" "DOLLAR \<notin> set post"
  shows "sub_inline (pre @ ''$'' @ c @ ''$'' @ post) = pre @ replace_inline c @ post"
proof -
  let ?prev = "if pre = [] then None else Some (last pre)"
  from assms(1) have p: "?prev \<noteq> Some DOLLAR"
    by (cases pre rule: rev_cases) auto
  from assms(5) have np: "\<not> startswith ''$'' post" by (cases post) auto
  have "sub_inline (pre @ DOLLAR # c @ DOLLAR # post)
      = pre @ sub_inline_from ?prev (DOLLAR # c @ DOLLAR # post)"
    unfolding sub_inline_def using assms(1) by (rule sub_inline_from_prefix)
  also have "sub_inline_from ?prev (DOLLAR # c @ DOLLAR # post)
      = replace_inline c @ sub_inline_from (Some DOLLAR) post"
    using match_inline_plain[OF assms(2,3,4) p np] by simp
  also have "sub_inline_from (Some DOLLAR) post = post"
    using assms(5) by (rule sub_inline_from_plain)
  finally show ?thesis by simp
qed

lemma strip_decomp:
  "\<exists>a b. (\<forall>x\<in>set a. py_isspace x) \<and> (\<forall>x\<in>set b. py_isspace x) \<and> s = a @ strip s @ b"
proof -
  obtain b where b: "\<forall>x\<in>set b. py_isspace x" "s = rstrip s @ b" using rstrip_decomp by blast
  obtain a where a: "\<forall>x\<in>set a. py_isspace x" "rstrip s = a @ lstrip (rstrip s)"
    using lstrip_decomp by blast
  from a(2) b(2) have "s = a @ strip s @ b" by (metis append.assoc strip_def)
  with a(1) b(1) show ?thesis by blast
qed













lemma replace_crlf_id: "CR \<notin> set s \<Longrightarrow> replace_crlf s = s"
  by (induction s rule: replace_crlf.induct) auto

lemma split_nl_ne [simp]: "split_nl s \<noteq> []"
  by (cases s) (simp_all add: Let_def)

lemma split_nl_append_gen: "split_nl (s @ NL # r) = split_nl s @ split_nl r"
  by (induction s) (simp_all add: Let_def)

lemma split_nl_line_set: "l \<in> set (split_nl s) \<Longrightarrow> set l \<subseteq> set s - {NL}"
proof (induction s arbitrary: l)
  case Nil
  then show ?case by simp
next
  case (Cons c s)
  show ?case
  proof (cases "c = NL")
    case True
    with Cons show ?thesis by (auto simp: Let_def)
  next
    case False
    from Cons.prems False have "l = c # hd (split_nl s) \<or> l \<in> set (tl (split_nl s))"
      by (simp add: Let_def)
    then show ?thesis
    proof
      assume l: "l = c # hd (split_nl s)"
      have "hd (split_nl s) \<in> set (split_nl s)" by simp
      from Cons.IH[OF this] l False show ?thesis by auto
    next
      assume "l \<in> set (tl (split_nl s))"
      then have "l \<in> set (split_nl s)" by (meson list.set_sel(2) split_nl_ne)
      from Cons.IH[OF this] show ?thesis by auto
    qed
  qed
qed

lemma join_split_nl: "py_join [NL] (split_nl s) = s"
proof (induction s)
  case Nil
  then show ?case by simp
next
  case (Cons c s)
  obtain l ls where sp: "split_nl s = l # ls" by (cases "split_nl s") auto
  show ?case
  proof (cases "c = NL")
    case True
    with Cons sp show ?thesis by (simp add: Let_def)
  next
    case False
    with Cons sp show ?thesis by (cases ls) (simp_all add: Let_def)
  qed
qed

lemma py_join_append:
  "xs \<noteq> [] \<Longrightarrow> ys \<noteq> [] \<Longrightarrow> py_join sep (xs @ ys) = py_join sep xs @ sep @ py_join sep ys"
proof (induction xs)
  case Nil
  then show ?case by simp
next
  case (Cons x xs)
  then show ?case by (cases "xs = []") (simp_all add: py_join_Cons)
qed







lemma py_join_blank_lines:
  "ys \<noteq> [] \<Longrightarrow> py_join [NL] (replicate k [] @ ys) = replicate k NL @ py_join [NL] ys"
  by (induction k) (simp_all add: py_join_Cons)

lemma set_strip: "set (strip s) \<subseteq> set s"
proof -
  obtain a b where "s = a @ strip s @ b" using strip_decomp by blast
  then show ?thesis by (metis Un_upper1 Un_upper2 set_append subset_trans)
qed

lemma startswith_dollar: "startswith ''$$'' s \<Longrightarrow> DOLLAR \<in> set s"
  by (cases s) auto

lemma block_plain_line:
  "DOLLAR \<notin> set l \<Longrightarrow> convert_block_lines (l # rest) = l # convert_block_lines rest"
proof -
  assume "DOLLAR \<notin> set l"
  with set_strip[of l] have "DOLLAR \<notin> set (strip l)" by auto
  then have "\<not> startswith ''$$'' (strip l)" using startswith_dollar by blast
  then show ?thesis by (simp add: convert_block_lines.simps(2))
qed

lemma block_plain_lines:
  "\<forall>l\<in>set pl. DOLLAR \<notin> set l \<Longrightarrow>
   convert_block_lines (pl @ rest) = pl @ convert_block_lines rest"
  by (induction pl) (simp_all add: block_plain_line)

lemma block_canonical:
  assumes "\<not> endswith ''$$'' (strip f)"
  shows "convert_block_lines (''$$'' # f # ''$$'' # rest)
           = canonical_block (strip f) @ convert_block_lines rest"
  using assms not_endswith_imp[OF assms]
  by (simp add: convert_block_lines.simps(2) Let_def)

lemma contains_needs_dollar: "DOLLAR \<notin> set s \<Longrightarrow> \<not> contains (DOLLAR # p) s"
  by (induction s) auto

lemma inline_plain_line:
  "DOLLAR \<notin> set l \<Longrightarrow> convert_inline_lines ib (l # rest) = l # convert_inline_lines ib rest"
proof -
  assume d: "DOLLAR \<notin> set l"
  with set_strip[of l] have "DOLLAR \<notin> set (strip l)" by auto
  then have "strip l \<noteq> ''$$''" by auto
  with d show ?thesis
    by (simp add: sub_inline_def sub_inline_from_plain)
qed

lemma inline_plain_lines:
  "\<forall>l\<in>set pl. DOLLAR \<notin> set l \<Longrightarrow>
   convert_inline_lines ib (pl @ rest) = pl @ convert_inline_lines ib rest"
  by (induction pl) (simp_all add: inline_plain_line del: convert_inline_lines.simps(2))

lemma inline_canonical:
  assumes "strip f \<noteq> ''$$''"
  shows "convert_inline_lines False (''$$'' # f # ''$$'' # rest)
           = ''$$'' # f # ''$$'' # convert_inline_lines False rest"
  using assms by simp

lemma convert_inline_math_lines:
  "ls \<noteq> [] \<Longrightarrow> \<forall>l\<in>set ls. NL \<notin> set l \<Longrightarrow>
   convert_inline_math (py_join [NL] ls) = py_join [NL] (convert_inline_lines False ls)"
  by (simp add: convert_inline_math_def split_nl_join)

lemma collapse_plain: "NL \<notin> set s \<Longrightarrow> collapse_newlines s = s"
  by (induction s) auto

lemma collapse_append:
  "s \<noteq> [] \<Longrightarrow> last s \<noteq> NL \<Longrightarrow>
   collapse_newlines (s @ t) = collapse_newlines s @ collapse_newlines t"
proof (induction s rule: collapse_newlines.induct)
  case 1
  then show ?case by simp
next
  case (2 c cs)
  show ?case
  proof (cases "c = NL")
    case False
    show ?thesis
    proof (cases "cs = []")
      case True
      with False show ?thesis by simp
    next
      case ne: False
      with "2.prems" have "last cs \<noteq> NL" by simp
      from "2.IH"(2)[OF False ne this] False show ?thesis by simp
    qed
  next
    case True
    from "2.prems" True have ne: "cs \<noteq> []" by auto
    with "2.prems" have l: "last cs \<noteq> NL" by simp
    then have ex: "\<exists>x\<in>set cs. \<not> x = NL" using ne last_in_set by blast
    then obtain x where x: "x \<in> set cs" "\<not> x = NL" by blast
    have tw: "takeWhile (\<lambda>x. x = NL) (cs @ t) = takeWhile (\<lambda>x. x = NL) cs"
      using x by (rule takeWhile_append1)
    have dw: "dropWhile (\<lambda>x. x = NL) (cs @ t) = dropWhile (\<lambda>x. x = NL) cs @ t"
      using x by (rule dropWhile_append1)
    have dne: "dropWhile (\<lambda>x. x = NL) cs \<noteq> []"
      using ex by (simp add: dropWhile_eq_Nil_conv)
    have dl: "last (dropWhile (\<lambda>x. x = NL) cs) \<noteq> NL"
      using l dne by (metis append_take_drop_id last_appendR takeWhile_dropWhile_id)
    from "2.IH"(1)[OF True refl dne dl] True show ?thesis
      by (simp add: tw dw Let_def)
  qed
qed

lemma collapse_run:
  "t = [] \<or> hd t \<noteq> NL \<Longrightarrow>
   collapse_newlines (replicate (Suc n) NL @ t)
     = replicate (min (Suc n) 3) NL @ collapse_newlines t"
proof -
  assume t: "t = [] \<or> hd t \<noteq> NL"
  then have tw: "takeWhile (\<lambda>x. x = NL) (replicate n NL @ t) = replicate n NL"
    by (cases t) (auto simp: takeWhile_all)
  from t have dw: "dropWhile (\<lambda>x. x = NL) (replicate n NL @ t) = t"
    by (cases t) (auto simp: dropWhile_all)
  have "min (Suc n) 3 = (if 4 \<le> Suc n then 3 else Suc n)" by auto
  then show ?thesis by (simp add: tw dw Let_def)
qed

declare collapse_newlines.simps(2) [simp del]

lemma trimmed_ends:
  assumes "s \<noteq> []" "strip s = s"
  shows "\<not> py_isspace (hd s)" "\<not> py_isspace (last s)" "hd s \<noteq> NL" "last s \<noteq> NL"
proof -
  from assms strip_ends[of s] show a: "\<not> py_isspace (hd s)" and b: "\<not> py_isspace (last s)"
    by simp_all
  from a show "hd s \<noteq> NL" by (auto simp: py_isspace_def)
  from b show "last s \<noteq> NL" by (auto simp: py_isspace_def)
qed

lemma formula_block_text:
  "py_join [NL] [''$$'', f, ''$$''] = ''$$'' @ [NL] @ f @ [NL] @ ''$$''"
  by simp

lemma document_lines:
  "py_join [NL] (split_nl a @ replicate k [] @ [''$$'', f, ''$$''] @ replicate k [] @ split_nl b)
     = a @ replicate (Suc k) NL @ ''$$'' @ [NL] @ f @ [NL] @ ''$$'' @ replicate (Suc k) NL @ b"
proof -
  have 1: "py_join [NL] (replicate k [] @ split_nl b) = replicate k NL @ b"
    by (simp add: py_join_blank_lines join_split_nl)
  have 2: "py_join [NL] ([''$$'', f, ''$$''] @ (replicate k [] @ split_nl b))
      = (''$$'' @ [NL] @ f @ [NL] @ ''$$'') @ [NL] @ replicate k NL @ b"
    by (subst py_join_append) (simp_all add: 1)
  have 3: "py_join [NL] (replicate k [] @ [''$$'', f, ''$$''] @ replicate k [] @ split_nl b)
      = replicate k NL @ (''$$'' @ [NL] @ f @ [NL] @ ''$$'') @ [NL] @ replicate k NL @ b"
    by (subst py_join_blank_lines) (simp_all only: 2, simp)
  have "py_join [NL] (split_nl a @ (replicate k [] @ [''$$'', f, ''$$''] @ replicate k [] @ split_nl b))
      = a @ [NL] @ replicate k NL @ (''$$'' @ [NL] @ f @ [NL] @ ''$$'') @ [NL] @ replicate k NL @ b"
    by (subst py_join_append) (simp_all only: 3 join_split_nl, simp_all)
  moreover have "[NL] @ replicate k NL = replicate (Suc k) NL" by simp
  ultimately show ?thesis by (simp add: replicate_append_same)
qed

lemma collapse_formula_block:
  assumes "f \<noteq> []" "NL \<notin> set f"
  shows "collapse_newlines (''$$'' @ [NL] @ f @ [NL] @ ''$$'') = ''$$'' @ [NL] @ f @ [NL] @ ''$$''"
proof -
  from assms have hf: "hd f \<noteq> NL" and lf: "last f \<noteq> NL"
    by (metis hd_in_set, metis last_in_set)
  have 0: "collapse_newlines ''$$'' = ''$$''"
    by (rule collapse_plain) simp
  have "collapse_newlines (replicate (Suc 0) NL @ ''$$'') = NL # ''$$''"
    by (subst collapse_run) (simp_all add: 0)
  then have 1: "collapse_newlines (NL # ''$$'') = NL # ''$$''" by simp
  have 2: "collapse_newlines (f @ NL # ''$$'') = f @ NL # ''$$''"
    using collapse_append[OF assms(1) lf, of "NL # ''$$''"] assms(2) 1
    by (simp add: collapse_plain)
  have "collapse_newlines (replicate (Suc 0) NL @ (f @ NL # ''$$'')) = NL # f @ NL # ''$$''"
    using assms(1) hf by (subst collapse_run) (simp_all add: 2)
  then have 3: "collapse_newlines (NL # f @ NL # ''$$'') = NL # f @ NL # ''$$''" by simp
  have "collapse_newlines (''$$'' @ (NL # f @ NL # ''$$'')) = ''$$'' @ NL # f @ NL # ''$$''"
    by (subst collapse_append) (simp_all add: 3 0)
  then show ?thesis by simp
qed

lemma collapse_document:
  assumes a: "a \<noteq> []" "last a \<noteq> NL" "collapse_newlines a = a"
    and b: "b \<noteq> []" "hd b \<noteq> NL" "collapse_newlines b = b"
    and f: "f \<noteq> []" "NL \<notin> set f"
  shows "collapse_newlines
           (a @ replicate (Suc j) NL @ ''$$'' @ [NL] @ f @ [NL] @ ''$$'' @ replicate (Suc j) NL @ b)
         = a @ replicate (min (Suc j) 3) NL @ ''$$'' @ [NL] @ f @ [NL] @ ''$$''
             @ replicate (min (Suc j) 3) NL @ b"
proof -
  let ?m = "''$$'' @ [NL] @ f @ [NL] @ ''$$''"
  have 1: "collapse_newlines (replicate (Suc j) NL @ b) = replicate (min (Suc j) 3) NL @ b"
    using b by (subst collapse_run) simp_all
  have 2: "collapse_newlines (?m @ (replicate (Suc j) NL @ b)) = ?m @ replicate (min (Suc j) 3) NL @ b"
    by (subst collapse_append) (simp_all only: collapse_formula_block[OF f] 1, simp_all)
  have 3: "collapse_newlines (replicate (Suc j) NL @ (?m @ replicate (Suc j) NL @ b))
      = replicate (min (Suc j) 3) NL @ ?m @ replicate (min (Suc j) 3) NL @ b"
    by (subst collapse_run) (simp_all only: 2, simp_all)
  have "collapse_newlines (a @ (replicate (Suc j) NL @ ?m @ replicate (Suc j) NL @ b))
      = a @ replicate (min (Suc j) 3) NL @ ?m @ replicate (min (Suc j) 3) NL @ b"
    using a(1,2) by (subst collapse_append) (simp_all only: 3 a(3), simp_all)
  then show ?thesis by simp
qed

lemma convert_block_math_document:
  assumes a: "a \<noteq> []" "strip a = a" "DOLLAR \<notin> set a" "CR \<notin> set a" "collapse_newlines a = a"
    and b: "b \<noteq> []" "strip b = b" "DOLLAR \<notin> set b" "CR \<notin> set b" "collapse_newlines b = b"
    and f: "f \<noteq> []" "strip f = f" "NL \<notin> set f" "CR \<notin> set f" "\<not> endswith ''$$'' f"
  shows "convert (a @ replicate (Suc k) NL @ ''$$'' @ [NL] @ f @ [NL] @ ''$$''
                    @ replicate (Suc k) NL @ b)
           = a @ replicate (min (Suc (Suc k)) 3) NL @ ''$$'' @ [NL] @ f @ [NL] @ ''$$''
               @ replicate (min (Suc (Suc k)) 3) NL @ b"
proof -
  let ?doc = "\<lambda>n. a @ replicate n NL @ ''$$'' @ [NL] @ f @ [NL] @ ''$$'' @ replicate n NL @ b"
  let ?lines = "\<lambda>k. split_nl a @ replicate k [] @ [''$$'', f, ''$$''] @ replicate k [] @ split_nl b"
  have doc: "py_join [NL] (?lines k) = ?doc (Suc k)" for k
    by (rule document_lines)
  have nl: "\<forall>l\<in>set (?lines k). NL \<notin> set l" for k
    using f(3) split_nl_line_set[of _ a] split_nl_line_set[of _ b] by auto
  have ne: "?lines k \<noteq> []" for k by simp
  have da: "\<forall>l\<in>set (split_nl a). DOLLAR \<notin> set l"
    using a(3) split_nl_line_set[of _ a] by auto
  have db: "\<forall>l\<in>set (split_nl b). DOLLAR \<notin> set l"
    using b(3) split_nl_line_set[of _ b] by auto
  have dk: "\<forall>l\<in>set (replicate k ([]::string)). DOLLAR \<notin> set l" for k by simp
  have fe: "\<not> endswith ''$$'' (strip f)" "strip f \<noteq> ''$$''"
    using f(2,5) not_endswith_imp[of f] by simp_all
  \<comment> \<open>the carriage returns\<close>
  have "CR \<notin> set (?doc (Suc k))" using a(4) b(4) f(4) by auto
  then have crlf: "replace_crlf (?doc (Suc k)) = ?doc (Suc k)" by (rule replace_crlf_id)
  \<comment> \<open>the block pass adds an empty line on each side\<close>
  have "convert_block_lines (?lines k)
      = split_nl a @ replicate k [] @ canonical_block (strip f) @ replicate k [] @ split_nl b"
    using block_plain_lines[OF da] block_plain_lines[OF dk] block_plain_lines[OF db, of "[]"]
      block_canonical[OF fe(1)]
    by simp
  also have "\<dots> = ?lines (Suc k)"
    using f(2) replicate_append_same[of k "[]::string"]
    by (simp add: canonical_block_def del: replicate_Suc) (simp add: replicate_append_same)
  finally have bl: "convert_block_lines (?lines k) = ?lines (Suc k)" .
  have "convert_block_math (?doc (Suc k)) = convert_block_math (py_join [NL] (?lines k))"
    by (simp only: doc)
  also have "\<dots> = py_join [NL] (convert_block_lines (?lines k))"
    by (rule convert_block_math_lines[OF ne nl])
  also have "\<dots> = ?doc (Suc (Suc k))"
    by (simp only: bl doc)
  finally have block: "convert_block_math (?doc (Suc k)) = ?doc (Suc (Suc k))" .
  \<comment> \<open>the inline pass changes nothing\<close>
  have il: "convert_inline_lines False (?lines (Suc k)) = ?lines (Suc k)"
    using inline_plain_lines[OF da] inline_plain_lines[OF dk] inline_plain_lines[OF db, of _ "[]"]
      inline_canonical[OF fe(2)]
    by (simp del: convert_inline_lines.simps(2) replicate_Suc)
  have "convert_inline_math (?doc (Suc (Suc k)))
      = convert_inline_math (py_join [NL] (?lines (Suc k)))"
    by (simp only: doc)
  also have "\<dots> = py_join [NL] (convert_inline_lines False (?lines (Suc k)))"
    by (rule convert_inline_math_lines[OF ne nl])
  also have "\<dots> = ?doc (Suc (Suc k))"
    by (simp only: il doc)
  finally have inline: "convert_inline_math (?doc (Suc (Suc k))) = ?doc (Suc (Suc k))" .
  \<comment> \<open>runs of four newlines become three\<close>
  have col: "collapse_newlines (?doc (Suc (Suc k))) = ?doc (min (Suc (Suc k)) 3)"
    using collapse_document[of a b f "Suc k"] a(1,5) b(1,5) f(1,3)
      trimmed_ends(4)[OF a(1,2)] trimmed_ends(3)[OF b(1,2)]
    by (simp del: replicate_Suc)
  \<comment> \<open>the ends are not whitespace\<close>
  have "strip (?doc n) = ?doc n" for n
    using trimmed_ends(1)[OF a(1,2)] trimmed_ends(2)[OF b(1,2)] a(1) b(1)
    by (intro strip_id) simp_all
  then show ?thesis
    unfolding convert_def crlf block inline col by (simp del: replicate_Suc)
qed

section \<open>Facts about the length of the text elements\<close>

lemma chunk_text_elements:
  "r \<in> set (chunk_text s a) \<Longrightarrow>
   \<exists>c. r = RText c None a \<and> c \<noteq> [] \<and> length c \<le> MAX_TEXT_LENGTH"
proof (induction s a rule: chunk_text.induct)
  case (1 content annotations)
  show ?case
  proof (cases "content = []")
    case True
    with "1.prems" show ?thesis by (simp add: chunk_text.simps)
  next
    case False
    with "1.prems" have "r = RText (take MAX_TEXT_LENGTH content) None annotations
        \<or> r \<in> set (chunk_text (drop MAX_TEXT_LENGTH content) annotations)"
      by (subst (asm) chunk_text.simps) simp
    then show ?thesis
    proof
      assume "r = RText (take MAX_TEXT_LENGTH content) None annotations"
      with False show ?thesis by simp
    next
      assume "r \<in> set (chunk_text (drop MAX_TEXT_LENGTH content) annotations)"
      from "1.IH"[OF False this] show ?thesis .
    qed
  qed
qed

lemma chunk_text_within: "r \<in> set (chunk_text s a) \<Longrightarrow> within_limit r"
  by (auto simp: within_limit_def dest: chunk_text_elements)

lemma match_markup_within:
  "match_markup s = Some (items, r) \<Longrightarrow> x \<in> set items \<Longrightarrow> within_limit x"
  unfolding match_markup_def
  by (auto split: option.splits simp: within_limit_def dest: chunk_text_elements)

lemma until_run_nonempty: "until d s = Some (run, r) \<Longrightarrow> run \<noteq> []"
  by (auto simp: until_def Let_def split: if_splits)

lemma delimited_run_nonempty: "delimited p d q s = Some (run, r) \<Longrightarrow> run \<noteq> []"
  by (auto simp: delimited_def split: if_splits option.splits dest: until_run_nonempty)

lemma match_markup_nonempty: "match_markup s = Some (items, r) \<Longrightarrow> items \<noteq> []"
  unfolding match_markup_def
  by (auto split: option.splits simp: chunk_text_eq_Nil dest: delimited_run_nonempty)

lemma scan_rich_text_within: "x \<in> set (scan_rich_text plain s) \<Longrightarrow> within_limit x"
proof (induction plain s rule: scan_rich_text.induct)
  case (1 plain)
  then show ?case by (simp add: chunk_text_within)
next
  case (2 plain c cs)
  show ?case
  proof (cases "match_markup (c # cs)")
    case None
    with 2 show ?thesis by simp
  next
    case (Some m)
    obtain items r where m: "m = (items, r)" by (cases m)
    from "2.prems" Some m have "x \<in> set (chunk_text plain None) \<or> x \<in> set items
        \<or> x \<in> set (scan_rich_text [] r)" by auto
    with "2.IH"(2)[OF Some m[symmetric]] match_markup_within[of "c # cs" items r x] Some m
    show ?thesis by (auto simp: chunk_text_within)
  qed
qed

lemma scan_rich_text_eq_Nil: "scan_rich_text plain s = [] \<Longrightarrow> plain = [] \<and> s = []"
proof (induction plain s rule: scan_rich_text.induct)
  case (1 plain)
  then show ?case by (simp add: chunk_text_eq_Nil)
next
  case (2 plain c cs)
  show ?case
  proof (cases "match_markup (c # cs)")
    case None
    with 2 show ?thesis by simp
  next
    case (Some m)
    obtain items r where m: "m = (items, r)" by (cases m)
    with Some "2.prems" match_markup_nonempty[of "c # cs" items r] show ?thesis by simp
  qed
qed

lemma parse_rich_text_within: "x \<in> set (parse_rich_text text) \<Longrightarrow> within_limit x"
proof (cases "scan_rich_text [] text = []")
  case True
  assume "x \<in> set (parse_rich_text text)"
  with True scan_rich_text_eq_Nil[OF True] show ?thesis
    by (simp add: parse_rich_text_def within_limit_def)
next
  case False
  assume "x \<in> set (parse_rich_text text)"
  with False show ?thesis
    by (simp add: parse_rich_text_def Let_def scan_rich_text_within)
qed


lemma text_block_within [simp]: "block_within_limit (text_block t (parse_rich_text s))"
  by (simp add: block_within_limit_def text_block_def list_all_iff parse_rich_text_within)

lemma other_blocks_within [simp]:
  "block_within_limit (equation_block e)" "block_within_limit (code_block c l)"
  "block_within_limit divider_block"
  by (simp_all add: block_within_limit_def equation_block_def code_block_def divider_block_def)

lemma build_blocks_lines_within: "list_all block_within_limit (build_blocks_lines ls)"
proof (induction ls rule: build_blocks_lines.induct)
  case 1
  then show ?case by simp
next
  case (2 line rest)
  then show ?case
    by (subst build_blocks_lines.simps(2))
       (auto simp: Let_def split: prod.splits option.splits)
qed

lemma slices_subset: "c \<in> set (slices xs) \<Longrightarrow> set c \<subseteq> set xs"
proof -
  assume "c \<in> set (slices xs)"
  then have "set c \<subseteq> set (concat (slices xs))" by auto
  then show ?thesis by (simp add: concat_slices)
qed

lemma split_block_keeps_limit:
  "block_within_limit b \<Longrightarrow> list_all block_within_limit (split_block_if_needed b)"
  by (auto simp: split_block_if_needed_def block_within_limit_def list_all_iff
      split: option.splits dest: slices_subset)

lemma split_blocks_within:
  "list_all block_within_limit bs \<Longrightarrow> list_all block_within_limit (split_blocks bs)"
  by (induction bs) (simp_all add: split_blocks_def split_block_keeps_limit)

lemma collect_math_end:
  "\<forall>m\<in>set ms. strip m \<noteq> ''$$'' \<and> \<not> (endswith ''$$'' (strip m) \<and> 2 < length (strip m)) \<Longrightarrow>
   length acc + length ms \<le> 31 \<Longrightarrow> collect_math acc ms = (False, acc @ ms, [])"
  by (induction ms arbitrary: acc) (auto simp: Let_def)

lemma collect_math_bound:
  "\<forall>m\<in>set ms. strip m \<noteq> ''$$'' \<and> \<not> (endswith ''$$'' (strip m) \<and> 2 < length (strip m)) \<Longrightarrow>
   length acc + length ms = 31 \<Longrightarrow>
   strip l \<noteq> ''$$'' \<and> \<not> (endswith ''$$'' (strip l) \<and> 2 < length (strip l)) \<Longrightarrow>
   collect_math acc (ms @ l # ls) = (False, acc @ ms, l # ls)"
  by (induction ms arbitrary: acc) (auto simp: Let_def)

section \<open>Facts about what the parsing of rich text keeps\<close>

lemma unmarked_append [simp]: "unmarked (a @ b) = unmarked a @ unmarked b"
  by (simp add: unmarked_def)

lemma unmarked_Cons_markup [simp]: "markup_character c \<Longrightarrow> unmarked (c # s) = unmarked s"
  by (simp add: unmarked_def)

lemma markup_characters [simp]:
  "markup_character DOLLAR" "markup_character BACKTICK" "markup_character (CHR ''*'')"
  "markup_character (CHR ''['')" "markup_character (CHR '']'')" "markup_character (CHR ''('')"
  "markup_character (CHR '')'')"
  by (simp_all add: markup_character_def)

lemma until_split: "until d s = Some (run, r) \<Longrightarrow> s = run @ d # r"
proof -
  assume u: "until d s = Some (run, r)"
  then have run: "run = takeWhile (\<lambda>c. c \<noteq> d) s" and r: "r = tl (dropWhile (\<lambda>c. c \<noteq> d) s)"
    and ne: "dropWhile (\<lambda>c. c \<noteq> d) s \<noteq> []"
    by (auto simp: until_def Let_def split: if_splits)
  from ne have "hd (dropWhile (\<lambda>c. c \<noteq> d) s) = d" using hd_dropWhile[OF ne] by simp
  with ne r have "dropWhile (\<lambda>c. c \<noteq> d) s = d # r" by (cases "dropWhile (\<lambda>c. c \<noteq> d) s") auto
  with run show ?thesis by (metis takeWhile_dropWhile_id)
qed

lemma startswith_split: "startswith p s \<Longrightarrow> s = p @ drop (length p) s"
  by (metis append_take_drop_id startswith_def)

lemma delimited_split:
  "delimited p d q s = Some (body, r) \<Longrightarrow> s = p @ body @ d # q @ r"
proof -
  assume a: "delimited p d q s = Some (body, r)"
  then have sp: "startswith p s" by (auto simp: delimited_def split: if_splits)
  from a sp obtain r1 where u: "until d (drop (length p) s) = Some (body, r1)"
    and sq: "startswith q r1" and r: "r = drop (length q) r1"
    by (auto simp: delimited_def split: option.splits if_splits)
  from until_split[OF u] have "drop (length p) s = body @ d # r1" .
  moreover from startswith_split[OF sq] r have "r1 = q @ r" by simp
  ultimately show ?thesis using startswith_split[OF sp] by simp
qed

lemma element_text_chunk_text: "concat (map element_text (chunk_text s a)) = s"
proof (induction s a rule: chunk_text.induct)
  case (1 content annotations)
  show ?case
  proof (cases "content = []")
    case True
    then show ?thesis by (simp add: chunk_text.simps)
  next
    case False
    with 1 show ?thesis by (subst chunk_text.simps) simp
  qed
qed

lemma match_markup_unmarked:
  "match_markup s = Some (items, r) \<Longrightarrow>
   unmarked (concat (map element_text items)) @ unmarked r = unmarked s"
  unfolding match_markup_def
  by (auto split: option.splits simp: element_text_chunk_text
      dest!: delimited_split until_split)

lemma scan_rich_text_unmarked:
  "unmarked (concat (map element_text (scan_rich_text plain s))) = unmarked (plain @ s)"
proof (induction plain s rule: scan_rich_text.induct)
  case (1 plain)
  then show ?case by (simp add: element_text_chunk_text)
next
  case (2 plain c cs)
  show ?case
  proof (cases "match_markup (c # cs)")
    case None
    with 2 show ?thesis by simp
  next
    case (Some m)
    obtain items r where m: "m = (items, r)" by (cases m)
    from "2.IH"(2)[OF Some m[symmetric]] match_markup_unmarked[of "c # cs" items r] Some m
    show ?thesis by (simp add: element_text_chunk_text)
  qed
qed

lemma parse_rich_text_unmarked:
  "unmarked (concat (map element_text (parse_rich_text t))) = unmarked t"
proof (cases "scan_rich_text [] t = []")
  case True
  then show ?thesis by (simp add: parse_rich_text_def)
next
  case False
  then show ?thesis
    using scan_rich_text_unmarked[of "[]" t] by (simp add: parse_rich_text_def Let_def)
qed

section \<open>The claims\<close>

subsection \<open>The block builder\<close>

text \<open>
  Claim C1. Every rich-text element that \<^verbatim>\<open>build_blocks\<close> produces has a content of at most
  2000 characters, the single element of a code block included. The code does not do
  this: the content of a code block is the joined lines as they are, and never goes
  through \<^verbatim>\<open>_chunk_text\<close>. A fenced code block with one line of 2001 characters gives one
  rich-text element whose content has 2001 characters.
\<close>

theorem code_block_content_not_chunked:
  "build_blocks (FENCE @ [NL] @ replicate 2001 (CHR ''a'') @ [NL] @ FENCE)
     = [code_block (replicate 2001 (CHR ''a'')) ''plain text'']
   \<and> map (map (length \<circ> text_content) \<circ> the \<circ> rich_text)
         (build_blocks (FENCE @ [NL] @ replicate 2001 (CHR ''a'') @ [NL] @ FENCE)) = [[2001]]"
proof -
  let ?a = "replicate 2001 (CHR ''a'')"
  have eq: "FENCE @ [NL] @ ?a @ [NL] @ FENCE = FENCE @ NL # (?a @ NL # FENCE)"
    by simp
  have "split_nl (FENCE @ NL # (?a @ NL # FENCE)) = FENCE # split_nl (?a @ NL # FENCE)"
    by (rule split_nl_append) simp
  also have "split_nl (?a @ NL # FENCE) = ?a # split_nl FENCE"
    by (rule split_nl_append) simp
  also have "split_nl FENCE = [FENCE]"
    by (rule split_nl_no_nl) simp
  finally have sp: "split_nl (FENCE @ NL # (?a @ NL # FENCE)) = [FENCE, ?a, FENCE]" .
  have sa: "strip ?a = ?a"
    by (rule strip_id) (simp_all add: py_isspace_def)
  have sf: "strip FENCE = FENCE"
    by (rule strip_id) simp_all
  have ic: "in_code ?a"
    by (simp add: in_code_def sa startswith_def)
  have nic: "\<not> in_code FENCE"
    by (simp add: in_code_def sf)
  have bl: "build_blocks_lines [FENCE, ?a, FENCE] = [code_block ?a ''plain text'']"
    using code_fence_block[of FENCE "[?a]" "[FENCE]"] ic nic by (simp add: sf)
  have bb: "build_blocks (FENCE @ [NL] @ ?a @ [NL] @ FENCE) = [code_block ?a ''plain text'']"
    unfolding build_blocks_def eq sp bl split_blocks_def by simp
  show ?thesis
    unfolding bb by (simp add: code_block_def)
qed

text \<open>
  Claim C10. A code fence that is never closed: when the loop of \<^verbatim>\<open>build_blocks\<close> is at a
  line that starts with three backticks once stripped, and no later line does, it emits
  one code block and nothing else, however many lines remain. The content of the block
  is the remaining lines joined by newlines, its language the rest of the opening line,
  stripped, or \<^verbatim>\<open>plain text\<close> when that is empty. The same holds of \<^verbatim>\<open>build_blocks\<close> on a
  text that starts with such a line.
\<close>

theorem unterminated_code_fence:
  assumes fence: "startswith FENCE (strip line)"
    and body: "\<forall>l\<in>set rest. \<not> startswith FENCE (strip l)"
  shows "build_blocks_lines (line # rest) =
           [\<lparr>btype = Code,
             rich_text = Some [RText (py_join [NL] rest) None None],
             attrs = [(''language'',
               if strip (drop 3 (strip line)) \<noteq> [] then strip (drop 3 (strip line))
               else ''plain text'')]\<rparr>]
         \<and> (NL \<notin> set line \<and> (\<forall>l\<in>set rest. NL \<notin> set l) \<longrightarrow>
            build_blocks (py_join [NL] (line # rest)) =
              [\<lparr>btype = Code,
                rich_text = Some [RText (py_join [NL] rest) None None],
                attrs = [(''language'',
                  if strip (drop 3 (strip line)) \<noteq> [] then strip (drop 3 (strip line))
                  else ''plain text'')]\<rparr>])"
proof -
  have loop: "build_blocks_lines (line # rest) =
           [\<lparr>btype = Code,
             rich_text = Some [RText (py_join [NL] rest) None None],
             attrs = [(''language'',
               if strip (drop 3 (strip line)) \<noteq> [] then strip (drop 3 (strip line))
               else ''plain text'')]\<rparr>]"
    using code_fence_block[OF fence, of rest "[]"] body
    by (simp add: in_code_def code_block_def)
  have "split_nl (py_join [NL] (line # rest)) = line # rest"
    if "NL \<notin> set line" "\<forall>l\<in>set rest. NL \<notin> set l"
    using that by (intro split_nl_join) simp_all
  with loop show ?thesis
    by (simp add: build_blocks_def split_blocks_def split_block_if_needed_def)
qed

theorem unterminated_code_fence_witness:
  "build_blocks_lines [FENCE @ ''python'', ''x = 1'', '''', ''$$'', ''y'']
     = [\<lparr>btype = Code,
         rich_text = Some [RText (''x = 1'' @ [NL, NL] @ ''$$'' @ [NL] @ ''y'') None None],
         attrs = [(''language'', ''python'')]\<rparr>]
   \<and> build_blocks (FENCE @ ''python'' @ [NL] @ ''x = 1'' @ [NL, NL] @ ''$$'' @ [NL] @ ''y'')
     = [\<lparr>btype = Code,
         rich_text = Some [RText (''x = 1'' @ [NL, NL] @ ''$$'' @ [NL] @ ''y'') None None],
         attrs = [(''language'', ''python'')]\<rparr>]
   \<and> build_blocks ('' '' @ FENCE @ ''  '' @ [NL] @ ''  x'' @ [NL])
     = [\<lparr>btype = Code,
         rich_text = Some [RText (''  x'' @ [NL]) None None],
         attrs = [(''language'', ''plain text'')]\<rparr>]"
  using unterminated_code_fence[of "FENCE @ ''python''" "[''x = 1'', '''', ''$$'', ''y'']"]
    unterminated_code_fence[of "'' '' @ FENCE @ ''  ''" "[''  x'', '''']"]
  by (simp add: strip_def lstrip_def rstrip_def py_isspace_def)

text \<open>
  Claim C8. At a line that is \<^verbatim>\<open>$$\<close>, when no closing \<^verbatim>\<open>$$\<close> line comes before the bound of
  50 lines or the end of the input, the collected text is emitted as a paragraph with
  the marker put back in front, and none of the content of the collected lines is
  dropped; with a closing line in time, an equation is emitted. The part on the content
  fails on the code: the text of the paragraph goes through \<^verbatim>\<open>_parse_rich_text\<close>, which
  takes the markup it recognises out of the content. After a \<^verbatim>\<open>$$\<close> line, the line
  \<^verbatim>\<open>a*b*c\<close> becomes the elements \<^verbatim>\<open>$$a\<close>, an italic \<^verbatim>\<open>b\<close> and \<^verbatim>\<open>c\<close>: the two asterisks
  of the line are in no element.
\<close>

theorem unterminated_equation_paragraph_drops_markup:
  "build_blocks_lines [''$$'', ''a*b*c''] =
     [\<lparr>btype = Paragraph,
       rich_text = Some [RText ''$$a'' None None, RText ''b'' None (Some Italic),
                         RText ''c'' None None],
       attrs = []\<rparr>]
   \<and> concat (map text_content [RText ''$$a'' None None, RText ''b'' None (Some Italic),
                         RText ''c'' None None]) = ''$$abc''"
  by code_simp

text \<open>
  Claim C8, as amended. The loop of \<^verbatim>\<open>build_blocks\<close> is at a line that is \<^verbatim>\<open>$$\<close> once
  stripped, followed by lines \<open>ms\<close> none of which is \<^verbatim>\<open>$$\<close> once stripped. If fewer than
  50 such lines are followed by a closing \<^verbatim>\<open>$$\<close> line, it emits an equation block whose
  expression is the lines joined by newlines and stripped, and goes on after the closing
  line. If there are 50 of them, or fewer and the input ends, it emits a paragraph whose
  elements are parsed from \<^verbatim>\<open>$$\<close> followed by all the collected lines joined by single
  spaces, and goes on with the first line it has not collected. The parsing keeps every
  character of that text, in order, other than the markup characters
  \<^verbatim>\<open>$\<close>, backtick, \<^verbatim>\<open>*\<close>, \<^verbatim>\<open>[\<close>, \<^verbatim>\<open>]\<close>, \<^verbatim>\<open>(\<close> and \<^verbatim>\<open>)\<close>; where the collected lines hold no
  asterisk, backtick or opening bracket, the contents of the elements put together are
  that text exactly.
\<close>

theorem unterminated_equation_becomes_paragraph:
  assumes first: "strip line = ''$$''" and ms: "\<forall>m\<in>set ms. strip m \<noteq> ''$$''"
  shows "(length ms < 50 \<and> strip c = ''$$'' \<longrightarrow>
            build_blocks_lines (line # ms @ c # rest)
              = \<lparr>btype = Equation, rich_text = None,
                  attrs = [(''expression'', strip (py_join [NL] ms))]\<rparr>
                # build_blocks_lines rest)
       \<and> (length ms = 50 \<or> length ms < 50 \<and> rest = [] \<longrightarrow>
            build_blocks_lines (line # ms @ rest)
              = \<lparr>btype = Paragraph,
                  rich_text = Some (parse_rich_text (''$$'' @ py_join '' '' ms)),
                  attrs = []\<rparr>
                # build_blocks_lines rest)
       \<and> filter (\<lambda>x. x \<notin> set [DOLLAR, BACKTICK, CHR ''*'', CHR ''['', CHR '']'', CHR ''('', CHR '')''])
             (concat (map element_text (parse_rich_text (''$$'' @ py_join '' '' ms))))
           = filter (\<lambda>x. x \<notin> set [DOLLAR, BACKTICK, CHR ''*'', CHR ''['', CHR '']'', CHR ''('', CHR '')''])
               (''$$'' @ py_join '' '' ms)
       \<and> (set (concat ms) \<inter> {CHR ''*'', BACKTICK, CHR ''[''} = {} \<longrightarrow>
            concat (map text_content (parse_rich_text (''$$'' @ py_join '' '' ms)))
              = ''$$'' @ py_join '' '' ms)"
proof (intro conjI impI)
  assume "length ms < 50 \<and> strip c = ''$$''"
  then have "collect_equation [] (ms @ c # rest) = (True, ms, rest)"
    using collect_equation_found[OF ms, of "[]" c rest] by simp
  then show "build_blocks_lines (line # ms @ c # rest)
              = \<lparr>btype = Equation, rich_text = None,
                  attrs = [(''expression'', strip (py_join [NL] ms))]\<rparr>
                # build_blocks_lines rest"
    using first by (simp add: build_blocks_lines.simps(2) equation_block_def)
next
  assume a: "length ms = 50 \<or> length ms < 50 \<and> rest = []"
  have "collect_equation [] (ms @ rest) = (False, ms, rest)"
  proof (cases "length ms = 50")
    case True
    then show ?thesis using collect_equation_bound[OF ms, of "[]" rest] by simp
  next
    case False
    with a have "length ms < 50" "rest = []" by auto
    then show ?thesis using collect_equation_end[OF ms, of "[]"] by simp
  qed
  then show "build_blocks_lines (line # ms @ rest)
              = \<lparr>btype = Paragraph,
                  rich_text = Some (parse_rich_text (''$$'' @ py_join '' '' ms)),
                  attrs = []\<rparr>
                # build_blocks_lines rest"
    using first by (simp add: build_blocks_lines.simps(2) text_block_def)
next
  show "filter (\<lambda>x. x \<notin> set [DOLLAR, BACKTICK, CHR ''*'', CHR ''['', CHR '']'', CHR ''('', CHR '')''])
             (concat (map element_text (parse_rich_text (''$$'' @ py_join '' '' ms))))
           = filter (\<lambda>x. x \<notin> set [DOLLAR, BACKTICK, CHR ''*'', CHR ''['', CHR '']'', CHR ''('', CHR '')''])
               (''$$'' @ py_join '' '' ms)"
    using parse_rich_text_unmarked[of "''$$'' @ py_join '' '' ms"]
    unfolding unmarked_def markup_character_def .
next
  assume p: "set (concat ms) \<inter> {CHR ''*'', BACKTICK, CHR ''[''} = {}"
  have "set (''$$'' @ py_join '' '' ms) \<subseteq> {DOLLAR, CHR '' ''} \<union> set (concat ms)"
    using set_py_join[of "'' ''" ms] by auto
  with p have "set (''$$'' @ py_join '' '' ms) \<inter> {CHR ''*'', BACKTICK, CHR ''[''} = {}"
    by auto
  then show "concat (map text_content (parse_rich_text (''$$'' @ py_join '' '' ms)))
              = ''$$'' @ py_join '' '' ms"
    by (rule parse_rich_text_plain)
qed

theorem unterminated_equation_becomes_paragraph_witness:
  "build_blocks_lines [''$$'', ''a'', '' b'', '' $$ '']
     = [\<lparr>btype = Equation, rich_text = None,
         attrs = [(''expression'', ''a'' @ [NL] @ '' b'')]\<rparr>]
   \<and> build_blocks_lines [''$$'', ''a'', ''b'']
     = [\<lparr>btype = Paragraph, rich_text = Some [RText ''$$a b'' None None], attrs = []\<rparr>]
   \<and> build_blocks_lines (''$$'' # replicate 50 ''x'' @ [''$$'']) =
       [\<lparr>btype = Paragraph,
         rich_text = Some (parse_rich_text (''$$'' @ py_join '' '' (replicate 50 ''x''))),
         attrs = []\<rparr>,
        \<lparr>btype = Paragraph, rich_text = Some [RText ''$$'' None None], attrs = []\<rparr>]
   \<and> concat (map text_content (parse_rich_text (''$$'' @ py_join '' '' [''a'', ''b'']))) = ''$$a b''
   \<and> filter (\<lambda>x. x \<notin> set [DOLLAR, BACKTICK, CHR ''*'', CHR ''['', CHR '']'', CHR ''('', CHR '')''])
         (concat (map element_text (parse_rich_text (''$$'' @ py_join '' '' [''a*b*c''])))) = ''abc''"
proof -
  have s: "strip ''$$'' = ''$$''" "strip '' $$ '' = ''$$''" "strip ''a'' \<noteq> ''$$''"
    "strip '' b'' \<noteq> ''$$''" "strip ''b'' \<noteq> ''$$''" "strip ''x'' \<noteq> ''$$''"
    "strip ''a*b*c'' \<noteq> ''$$''"
    "strip (''a'' @ [NL] @ '' b'') = ''a'' @ [NL] @ '' b''"
    by (simp_all add: strip_def lstrip_def rstrip_def py_isspace_def)
  have p: "parse_rich_text ''$$a b'' = [RText ''$$a b'' None None]"
    "parse_rich_text ''$$'' = [RText ''$$'' None None]"
    by code_simp+
  have e: "build_blocks_lines [''$$''] =
      [\<lparr>btype = Paragraph, rich_text = Some [RText ''$$'' None None], attrs = []\<rparr>]"
    using unterminated_equation_becomes_paragraph[of "''$$''" "[]" "[]" "[]"] s p by simp
  show ?thesis
    using unterminated_equation_becomes_paragraph[of "''$$''" "[''a'', '' b'']" "'' $$ ''" "[]"]
      unterminated_equation_becomes_paragraph[of "''$$''" "[''a'', ''b'']" "''$$''" "[]"]
      unterminated_equation_becomes_paragraph[of "''$$''" "replicate 50 ''x''" "''$$''" "[''$$'']"]
      unterminated_equation_becomes_paragraph[of "''$$''" "[''a*b*c'']" "''$$''" "[]"]
      s p e
    by simp
qed

text \<open>
  Claim C6. The size enforcer is the last loop of \<^verbatim>\<open>build_blocks\<close>, which replaces each
  block by the result of \<^verbatim>\<open>_split_block_if_needed\<close> and keeps the order of the blocks.
  Applying it twice is applying it once. After it, every rich-text list has at most 100
  elements. A block with no rich-text list, or with one of at most 100 elements, is
  returned as it is. A block with more than 100 elements is replaced by
  \<open>\<lceil>n / 100\<rceil>\<close> blocks of the same type and the same other attributes, the
  \<open>i\<close>-th of which holds the elements from index \<open>100 * i\<close> up to \<open>100 * i + 100\<close>; put
  together in order they are the original list.
\<close>

theorem size_enforcer_splits_and_is_idempotent:
  "split_blocks (split_blocks bs) = split_blocks bs
   \<and> (\<forall>c\<in>set (split_blocks bs). \<forall>rt. rich_text c = Some rt \<longrightarrow> length rt \<le> 100)
   \<and> split_blocks (bs @ cs) = split_blocks bs @ split_blocks cs
   \<and> split_blocks [b] = split_block_if_needed b
   \<and> ((\<forall>rt. rich_text b = Some rt \<longrightarrow> length rt \<le> 100) \<longrightarrow> split_block_if_needed b = [b])
   \<and> (\<forall>rt. rich_text b = Some rt \<and> 100 < length rt \<longrightarrow>
        split_block_if_needed b =
          map (\<lambda>i. \<lparr>btype = btype b, rich_text = Some (take 100 (drop (100 * i) rt)),
                     attrs = attrs b\<rparr>) [0..<(length rt + 99) div 100]
        \<and> concat (map (the \<circ> rich_text) (split_block_if_needed b)) = rt)"
proof (intro conjI allI impI ballI)
  show "split_blocks (split_blocks bs) = split_blocks bs" by (rule split_blocks_idem)
  show "split_blocks (bs @ cs) = split_blocks bs @ split_blocks cs" by (rule split_blocks_append)
  show "split_blocks [b] = split_block_if_needed b" by (simp add: split_blocks_def)
next
  fix c rt assume "c \<in> set (split_blocks bs)" "rich_text c = Some rt"
  then show "length rt \<le> 100" using split_blocks_bound[of c bs] by simp
next
  assume "\<forall>rt. rich_text b = Some rt \<longrightarrow> length rt \<le> 100"
  then show "split_block_if_needed b = [b]"
    by (intro split_block_within) (simp split: option.splits)
next
  fix rt assume a: "rich_text b = Some rt \<and> 100 < length rt"
  then show "split_block_if_needed b =
          map (\<lambda>i. \<lparr>btype = btype b, rich_text = Some (take 100 (drop (100 * i) rt)),
                     attrs = attrs b\<rparr>) [0..<(length rt + 99) div 100]"
    by (intro split_block_oversized) simp_all
  from a show "concat (map (the \<circ> rich_text) (split_block_if_needed b)) = rt"
    by (auto simp: split_block_if_needed_def comp_def concat_slices)
qed

theorem size_enforcer_splits_and_is_idempotent_witness:
  "split_blocks [text_block Paragraph (replicate 250 (REquation ''x'')), code_block ''c'' ''python'']
     = [text_block Paragraph (replicate 100 (REquation ''x'')),
        text_block Paragraph (replicate 100 (REquation ''x'')),
        text_block Paragraph (replicate 50 (REquation ''x'')),
        code_block ''c'' ''python'']
   \<and> split_blocks (split_blocks
        [text_block Paragraph (replicate 250 (REquation ''x'')), code_block ''c'' ''python''])
     = split_blocks [text_block Paragraph (replicate 250 (REquation ''x'')), code_block ''c'' ''python'']"
proof -
  let ?b = "text_block Paragraph (replicate 250 (REquation ''x''))"
  let ?c = "code_block ''c'' ''python''"
  have u: "[0..<3] = [0, Suc 0, 2]"
    by (simp add: upt_rec)
  have b: "split_block_if_needed ?b =
      [text_block Paragraph (replicate 100 (REquation ''x'')),
        text_block Paragraph (replicate 100 (REquation ''x'')),
        text_block Paragraph (replicate 50 (REquation ''x''))]"
    using size_enforcer_splits_and_is_idempotent[of "[?b, ?c]" "[]" ?b]
    by (simp add: text_block_def u)
  have c: "split_block_if_needed ?c = [?c]"
    using size_enforcer_splits_and_is_idempotent[of "[?b, ?c]" "[]" ?c]
    by (simp add: code_block_def)
  have "split_blocks ([?b] @ [?c]) = split_blocks [?b] @ split_blocks [?c]"
    using size_enforcer_splits_and_is_idempotent[of "[?b]" "[?c]" ?b] by blast
  moreover have "split_blocks [?b] = split_block_if_needed ?b"
    using size_enforcer_splits_and_is_idempotent[of "[?b]" "[?c]" ?b] by blast
  moreover have "split_blocks [?c] = split_block_if_needed ?c"
    using size_enforcer_splits_and_is_idempotent[of "[?b]" "[?c]" ?c] by blast
  ultimately have "split_blocks [?b, ?c] = split_block_if_needed ?b @ split_block_if_needed ?c"
    by simp
  moreover have "split_blocks (split_blocks [?b, ?c]) = split_blocks [?b, ?c]"
    using size_enforcer_splits_and_is_idempotent[of "[?b, ?c]" "[]" ?b] by blast
  ultimately show ?thesis
    using b c by simp
qed

subsection \<open>The normalizer\<close>

text \<open>
  Claim C3. When a line that begins with \<^verbatim>\<open>$$\<close> has no closing \<^verbatim>\<open>$$\<close>, the block pass
  emits the lines it went through unchanged: nothing lost, nothing duplicated. The code
  does not do this when the opening line has content after the marker: it emits the
  opening line and then the collected lines, the first of which is that content again.
  On the one-line text \<^verbatim>\<open>$$x\<close> the block pass returns the two lines \<^verbatim>\<open>$$x\<close> and \<^verbatim>\<open>x\<close>.
\<close>

theorem unterminated_block_math_repeats_opening_content:
  "convert_block_math ''$$x'' = ''$$x'' @ [NL] @ ''x''"
  by code_simp







text \<open>
  Claim C5. The normalizer is idempotent: for every text \<open>x\<close>, normalizing the normalized
  \<open>x\<close> gives the normalized \<open>x\<close>, and a text whose block math is already in the canonical
  three lines is reproduced exactly. The code does not do this. The block pass puts an
  empty line before and after every block formula it recognises, one that is already
  canonical included, and only runs of four or more newlines are cut back to three. The
  text \<^verbatim>\<open>a / $$ / f / $$ / b\<close> is normalized to the text with one empty line on each side of
  the formula, and that text is normalized to the text with two.
\<close>

theorem normalize_not_idempotent:
  "convert (''a'' @ [NL] @ ''$$'' @ [NL] @ ''f'' @ [NL] @ ''$$'' @ [NL] @ ''b'')
     = ''a'' @ [NL, NL] @ ''$$'' @ [NL] @ ''f'' @ [NL] @ ''$$'' @ [NL, NL] @ ''b''
   \<and> convert (convert (''a'' @ [NL] @ ''$$'' @ [NL] @ ''f'' @ [NL] @ ''$$'' @ [NL] @ ''b''))
     = ''a'' @ [NL, NL, NL] @ ''$$'' @ [NL] @ ''f'' @ [NL] @ ''$$'' @ [NL, NL, NL] @ ''b''
   \<and> convert (convert (''a'' @ [NL] @ ''$$'' @ [NL] @ ''f'' @ [NL] @ ''$$'' @ [NL] @ ''b''))
     \<noteq> convert (''a'' @ [NL] @ ''$$'' @ [NL] @ ''f'' @ [NL] @ ''$$'' @ [NL] @ ''b'')"
  by code_simp

text \<open>
  Claim C5, as amended. Let \<open>a\<close> and \<open>b\<close> be texts that are not empty, have no whitespace at
  their ends, no dollar sign, no carriage return and no run of four newlines, and \<open>f\<close> a
  formula on one line, not empty, with no whitespace at its ends, that does not end with
  \<^verbatim>\<open>$$\<close>. The normalizer maps the document made of \<open>a\<close>, \<open>n \<ge> 1\<close> newlines, the
  canonical three lines of \<open>f\<close>, \<open>n\<close> newlines and \<open>b\<close> to the same document with
  \<open>min (n + 1) 3\<close> newlines in place of \<open>n\<close>. So the document with two empty lines on
  each side of the formula is reproduced exactly, the normalizer is idempotent on it, and
  whatever \<open>n\<close> is, a third application changes nothing any more.
\<close>

theorem normalize_block_math_document:
  assumes a: "a \<noteq> []" "strip a = a" "DOLLAR \<notin> set a" "CR \<notin> set a" "collapse_newlines a = a"
    and b: "b \<noteq> []" "strip b = b" "DOLLAR \<notin> set b" "CR \<notin> set b" "collapse_newlines b = b"
    and f: "f \<noteq> []" "strip f = f" "NL \<notin> set f" "CR \<notin> set f" "\<not> endswith ''$$'' f"
  shows "convert (block_math_document a (Suc k) f b)
           = block_math_document a (min (Suc (Suc k)) 3) f b
       \<and> convert (block_math_document a 3 f b) = block_math_document a 3 f b
       \<and> convert (convert (block_math_document a 3 f b)) = convert (block_math_document a 3 f b)
       \<and> convert (convert (convert (block_math_document a (Suc k) f b)))
           = convert (convert (block_math_document a (Suc k) f b))"
proof -
  have step: "convert (block_math_document a (Suc k) f b)
           = block_math_document a (min (Suc (Suc k)) 3) f b" for k
    unfolding block_math_document_def using a b f by (rule convert_block_math_document)
  have three: "convert (block_math_document a 3 f b) = block_math_document a 3 f b"
    using step[of 2] by (simp add: eval_nat_numeral)
  have two: "convert (convert (block_math_document a (Suc k) f b)) = block_math_document a 3 f b"
  proof (cases k)
    case 0
    then show ?thesis using step[of 0] step[of 1] by (simp add: eval_nat_numeral)
  next
    case (Suc j)
    then have "min (Suc (Suc k)) 3 = 3" by simp
    with step[of k] have "convert (block_math_document a (Suc k) f b) = block_math_document a 3 f b"
      by (simp only:)
    then show ?thesis by (simp only: three)
  qed
  show ?thesis
    using step[of k] three two by simp
qed

theorem normalize_block_math_document_witness:
  "convert (''Intro:'' @ [NL] @ ''$$'' @ [NL] @ ''x^2'' @ [NL] @ ''$$'' @ [NL] @ ''Done.'')
     = ''Intro:'' @ [NL, NL] @ ''$$'' @ [NL] @ ''x^2'' @ [NL] @ ''$$'' @ [NL, NL] @ ''Done.''
   \<and> convert (''Intro:'' @ [NL, NL, NL] @ ''$$'' @ [NL] @ ''x^2'' @ [NL] @ ''$$'' @ [NL, NL, NL] @ ''Done.'')
     = ''Intro:'' @ [NL, NL, NL] @ ''$$'' @ [NL] @ ''x^2'' @ [NL] @ ''$$'' @ [NL, NL, NL] @ ''Done.''"
proof -
  have h: "strip ''Intro:'' = ''Intro:''" "strip ''Done.'' = ''Done.''" "strip ''x^2'' = ''x^2''"
    by (simp_all add: strip_def lstrip_def rstrip_def py_isspace_def)
  have c: "collapse_newlines ''Intro:'' = ''Intro:''" "collapse_newlines ''Done.'' = ''Done.''"
    by (simp_all add: collapse_plain)
  have e: "\<not> endswith ''$$'' ''x^2''"
    by (simp add: endswith_def)
  have r: "replicate 3 NL = [NL, NL, NL]" "min (Suc (Suc 0)) 3 = (2::nat)" "replicate 2 NL = [NL, NL]"
    by (simp_all add: numeral_3_eq_3 numeral_2_eq_2)
  from normalize_block_math_document[of "''Intro:''" "''Done.''" "''x^2''" 0] h c e
  show ?thesis
    by (simp add: block_math_document_def r)
qed

subsection \<open>The delivery engine\<close>

text \<open>
  Claim C9. For every title and every list of blocks: if the request that creates the
  page with the first 100 blocks is refused, \<^verbatim>\<open>create_page\<close> sends the request again with
  no children. If that one is accepted, it goes on to append the whole list of blocks,
  not the part after the first 100: it returns the page, and every block of the list is
  among the children of an append request it sends. If that one is refused too, it
  returns \<^verbatim>\<open>None\<close> and has sent the two creation requests and nothing else.
\<close>

theorem create_page_fallback_to_empty_page:
  assumes first: "remote (PostPage parent title (take 100 blocks)) w = (None, w1)"
  shows "(\<forall>data w2. remote (PostPage parent title []) w1 = (Some data, w2) \<longrightarrow>
            (\<exists>evs w3. append_remaining remote data blocks w2 = (evs, w3)
               \<and> create_page remote title blocks parent w =
                   (Some data,
                    Sent (PostPage parent title (take 100 blocks)) False
                      # Sent (PostPage parent title []) True # evs, w3)
               \<and> (\<forall>b\<in>set blocks. \<exists>children ok.
                     Sent (PatchChildren data children) ok \<in> set evs \<and> b \<in> set children)))
       \<and> (\<forall>w2. remote (PostPage parent title []) w1 = (None, w2) \<longrightarrow>
            create_page remote title blocks parent w =
              (None, [Sent (PostPage parent title (take 100 blocks)) False,
                      Sent (PostPage parent title []) False], w2))"
proof (intro conjI allI impI)
  fix data w2 assume second: "remote (PostPage parent title []) w1 = (Some data, w2)"
  obtain evs w3 where r: "append_remaining remote data blocks w2 = (evs, w3)"
    by (cases "append_remaining remote data blocks w2")
  have "create_page remote title blocks parent w =
          (Some data, Sent (PostPage parent title (take 100 blocks)) False
                      # Sent (PostPage parent title []) True # evs, w3)"
    using first second r by (simp add: create_page_def)
  moreover have "\<forall>b\<in>set blocks. \<exists>children ok.
                     Sent (PatchChildren data children) ok \<in> set evs \<and> b \<in> set children"
    using append_remaining_attempts_all[OF r] by blast
  ultimately show "\<exists>evs w3. append_remaining remote data blocks w2 = (evs, w3)
               \<and> create_page remote title blocks parent w =
                   (Some data,
                    Sent (PostPage parent title (take 100 blocks)) False
                      # Sent (PostPage parent title []) True # evs, w3)
               \<and> (\<forall>b\<in>set blocks. \<exists>children ok.
                     Sent (PatchChildren data children) ok \<in> set evs \<and> b \<in> set children)"
    using r by blast
next
  fix w2 assume second: "remote (PostPage parent title []) w1 = (None, w2)"
  show "create_page remote title blocks parent w =
              (None, [Sent (PostPage parent title (take 100 blocks)) False,
                      Sent (PostPage parent title []) False], w2)"
    using first second by (simp add: create_page_def)
qed

theorem create_page_fallback_to_empty_page_witness:
  "create_page refuse_content ''T'' [divider_block, equation_block ''x''] ''parent'' ()
     = (Some ''page-1'',
        [Sent (PostPage ''parent'' ''T'' [divider_block, equation_block ''x'']) False,
         Sent (PostPage ''parent'' ''T'' []) True,
         Sent (PatchChildren ''page-1'' [divider_block, equation_block ''x'']) True,
         Slept 350], ())
   \<and> create_page refuse_all ''T'' [divider_block, equation_block ''x''] ''parent'' ()
     = (None,
        [Sent (PostPage ''parent'' ''T'' [divider_block, equation_block ''x'']) False,
         Sent (PostPage ''parent'' ''T'' []) False], ())"
proof -
  have a: "append_remaining refuse_content ''page-1'' [divider_block, equation_block ''x''] ()
        = ([Sent (PatchChildren ''page-1'' [divider_block, equation_block ''x'']) True, Slept 350], ())"
    by (simp add: append_remaining.simps append_blocks_def refuse_content_def)
  have "create_page refuse_content ''T'' [divider_block, equation_block ''x''] ''parent'' ()
     = (Some ''page-1'',
        [Sent (PostPage ''parent'' ''T'' [divider_block, equation_block ''x'']) False,
         Sent (PostPage ''parent'' ''T'' []) True,
         Sent (PatchChildren ''page-1'' [divider_block, equation_block ''x'']) True,
         Slept 350], ())"
    using create_page_fallback_to_empty_page[of refuse_content "''parent''" "''T''" "[divider_block, equation_block ''x'']" "()" "()"] a
    by (simp add: refuse_content_def)
  moreover have "create_page refuse_all ''T'' [divider_block, equation_block ''x''] ''parent'' ()
     = (None,
        [Sent (PostPage ''parent'' ''T'' [divider_block, equation_block ''x'']) False,
         Sent (PostPage ''parent'' ''T'' []) False], ())"
    using create_page_fallback_to_empty_page[of refuse_all "''parent''" "''T''" "[divider_block, equation_block ''x'']" "()" "()"]
    by (simp add: refuse_all_def)
  ultimately show ?thesis by simp
qed

text \<open>
  Claim C4. In the single-unit retry of \<^verbatim>\<open>_append_blocks\<close>, every request is followed by
  the pacing delay before the next request, a refused request included. The code does
  not do this: \<^verbatim>\<open>time.sleep(0.15)\<close> stands in the \<^verbatim>\<open>else\<close> branch of the test of the
  status, so only an accepted single-block request is followed by it. With a remote that
  refuses everything, a batch of two blocks gives three requests in a row and no delay.
\<close>

theorem failed_appends_are_not_paced:
  "append_blocks refuse_all ''page-1'' [divider_block, equation_block ''x''] ()
     = ([Sent (PatchChildren ''page-1'' [divider_block, equation_block ''x'']) False,
         Sent (PatchChildren ''page-1'' [divider_block]) False,
         Sent (PatchChildren ''page-1'' [equation_block ''x'']) False], ())"
  by (simp add: append_blocks_def refuse_all_def)

text \<open>
  Claim C4, as amended. When the remote refuses the request that carries the whole batch,
  \<^verbatim>\<open>_append_blocks\<close> goes on with one request for each block of the batch, alone, in the
  order of the batch, whatever the answers are. An accepted request is followed at once
  by the delay of 150 milliseconds; a refused request is followed at once by the request
  for the next block, or by nothing when it was the last, with no delay. Here
  \<open>answers\<close> is the list of the answers of the remote to these requests, one for each
  block.
\<close>

theorem retry_paces_successful_appends_only:
  assumes batch: "remote (PatchChildren page_id blocks) w = (None, w0)"
  shows "length (answers remote page_id blocks w0) = length blocks
       \<and> fst (append_blocks remote page_id blocks w) =
           Sent (PatchChildren page_id blocks) False #
           concat (map (\<lambda>(b, ok). if ok then [Sent (PatchChildren page_id [b]) True, Slept 150]
                                    else [Sent (PatchChildren page_id [b]) False])
                       (zip blocks (answers remote page_id blocks w0)))"
proof
  show "length (answers remote page_id blocks w0) = length blocks" by simp
next
  obtain evs w1 where t: "retry_each remote page_id blocks w0 = (evs, w1)"
    by (cases "retry_each remote page_id blocks w0")
  with retry_each_events[of remote page_id blocks w0] batch
  show "fst (append_blocks remote page_id blocks w) =
           Sent (PatchChildren page_id blocks) False #
           concat (map (\<lambda>(b, ok). if ok then [Sent (PatchChildren page_id [b]) True, Slept 150]
                                    else [Sent (PatchChildren page_id [b]) False])
                       (zip blocks (answers remote page_id blocks w0)))"
    by (simp add: append_blocks_def)
qed

theorem retry_paces_successful_appends_only_witness:
  "fst (append_blocks refuse_dividers ''page-1''
          [\<lparr>btype = Divider, rich_text = None, attrs = []\<rparr>,
           \<lparr>btype = Equation, rich_text = None, attrs = [(''expression'', ''x'')]\<rparr>,
           \<lparr>btype = Divider, rich_text = None, attrs = []\<rparr>] ())
     = [Sent (PatchChildren ''page-1''
          [\<lparr>btype = Divider, rich_text = None, attrs = []\<rparr>,
           \<lparr>btype = Equation, rich_text = None, attrs = [(''expression'', ''x'')]\<rparr>,
           \<lparr>btype = Divider, rich_text = None, attrs = []\<rparr>]) False,
        Sent (PatchChildren ''page-1'' [\<lparr>btype = Divider, rich_text = None, attrs = []\<rparr>]) False,
        Sent (PatchChildren ''page-1''
          [\<lparr>btype = Equation, rich_text = None, attrs = [(''expression'', ''x'')]\<rparr>]) True,
        Slept 150,
        Sent (PatchChildren ''page-1'' [\<lparr>btype = Divider, rich_text = None, attrs = []\<rparr>]) False]"
proof -
  have batch: "refuse_dividers (PatchChildren ''page-1''
          [\<lparr>btype = Divider, rich_text = None, attrs = []\<rparr>,
           \<lparr>btype = Equation, rich_text = None, attrs = [(''expression'', ''x'')]\<rparr>,
           \<lparr>btype = Divider, rich_text = None, attrs = []\<rparr>]) () = (None, ())"
    by (simp add: refuse_dividers_def)
  from retry_paces_successful_appends_only[of refuse_dividers, OF batch]
  show ?thesis by (simp add: refuse_dividers_def)
qed

section \<open>Further properties\<close>

text \<open>
  X1. What holds of claim C1. In every block that \<^verbatim>\<open>build_blocks\<close> produces, other than a
  code block, every text element that is not a link has a content of at most 2000
  characters.
\<close>

theorem text_elements_within_limit:
  "\<forall>b\<in>set (build_blocks text). btype b \<noteq> Code \<longrightarrow>
     (\<forall>rt. rich_text b = Some rt \<longrightarrow>
        (\<forall>r\<in>set rt. \<forall>c a. r = RText c None a \<longrightarrow> length c \<le> MAX_TEXT_LENGTH))"
proof -
  have "list_all block_within_limit (build_blocks text)"
    unfolding build_blocks_def by (intro split_blocks_within build_blocks_lines_within)
  then have "\<forall>b\<in>set (build_blocks text). block_within_limit b"
    by (simp add: list_all_iff)
  then show ?thesis
    by (fastforce simp: list_all_iff block_within_limit_def within_limit_def)
qed

theorem text_elements_within_limit_witness:
  "build_blocks ''**b** [t](u)'' =
     [text_block Paragraph [RText ''b'' None (Some Bold), RText '' '' None None,
        RText ''t'' (Some ''u'') None]]
   \<and> length ''b'' \<le> MAX_TEXT_LENGTH \<and> length '' '' \<le> MAX_TEXT_LENGTH"
proof -
  have b: "build_blocks ''**b** [t](u)'' =
     [text_block Paragraph [RText ''b'' None (Some Bold), RText '' '' None None,
        RText ''t'' (Some ''u'') None]]"
    by code_simp
  from text_elements_within_limit[of "''**b** [t](u)''"] show ?thesis
    unfolding b by (simp add: text_block_def)
qed

text \<open>
  X2. A text of 5000 times the letter \<^verbatim>\<open>a\<close> becomes one paragraph of three text elements,
  of 2000, 2000 and 1000 characters, in this order.
\<close>

theorem plain_run_of_5000_characters:
  "build_blocks (replicate 5000 (CHR ''a'')) =
     [text_block Paragraph
        [RText (replicate 2000 (CHR ''a'')) None None,
         RText (replicate 2000 (CHR ''a'')) None None,
         RText (replicate 1000 (CHR ''a'')) None None]]"
proof -
  let ?s = "replicate 5000 (CHR ''a'')"
  have len: "length ?s = 5000" by simp
  have sp: "split_nl ?s = [?s]" by (rule split_nl_no_nl) simp
  have st: "strip ?s = ?s" by (rule strip_id) (simp_all add: py_isspace_def)
  have ne: "?s \<noteq> []" "?s \<noteq> ''$$''" "\<not> is_divider ?s"
    using len by (auto simp: is_divider_def simp del: length_replicate)
  have sw: "\<not> startswith FENCE ?s" "\<not> startswith ''> '' ?s" "\<not> startswith ''- '' ?s"
    "\<not> startswith ''* '' ?s"
    by (simp_all add: startswith_def)
  have hm: "header_match ?s = None" by (simp add: header_match_def)
  have nm: "numbered_match ?s = None" by (simp add: numbered_match_def re_digit_def)
  have "scan_rich_text [] ?s = chunk_text ?s None"
    using scan_rich_text_plain[of ?s "[]"] by simp
  also have "\<dots> = [RText (replicate 2000 (CHR ''a'')) None None,
         RText (replicate 2000 (CHR ''a'')) None None,
         RText (replicate 1000 (CHR ''a'')) None None]"
    by (simp add: chunk_text.simps)
  finally have pr: "parse_rich_text ?s = [RText (replicate 2000 (CHR ''a'')) None None,
         RText (replicate 2000 (CHR ''a'')) None None,
         RText (replicate 1000 (CHR ''a'')) None None]"
    by (simp add: parse_rich_text_def)
  have "build_blocks_lines [?s] = [text_block Paragraph (parse_rich_text ?s)]"
    by (simp add: build_blocks_lines.simps(2) st ne sw hm nm)
  then show ?thesis
    by (simp add: build_blocks_def sp pr split_blocks_def split_block_if_needed_def text_block_def)
qed

text \<open>
  X3. What holds of claim C3. When the opening line is \<^verbatim>\<open>$$\<close> alone once stripped and no
  line after it closes the formula, the block pass returns the lines as they are: all of
  them when at most 31 lines follow and the input ends, and the opening line with the
  31 lines collected when a further line follows that does not close the formula either;
  the pass then goes on with that line.
\<close>

theorem unterminated_bare_block_math_unchanged:
  assumes first: "strip line = ''$$''"
    and ms: "\<forall>m\<in>set ms. strip m \<noteq> ''$$'' \<and> \<not> (endswith ''$$'' (strip m) \<and> 2 < length (strip m))"
  shows "(length ms \<le> 31 \<longrightarrow> convert_block_lines (line # ms) = line # ms)
       \<and> (length ms = 31 \<and> strip l \<noteq> ''$$'' \<and> \<not> (endswith ''$$'' (strip l) \<and> 2 < length (strip l)) \<longrightarrow>
            convert_block_lines (line # ms @ l # ls) = line # ms @ convert_block_lines (l # ls))"
proof (intro conjI impI)
  assume "length ms \<le> 31"
  then have "collect_math [] ms = (False, ms, [])"
    using collect_math_end[OF ms, of "[]"] by simp
  then show "convert_block_lines (line # ms) = line # ms"
    using first by (simp add: convert_block_lines.simps(2) endswith_def)
next
  assume a: "length ms = 31 \<and> strip l \<noteq> ''$$'' \<and> \<not> (endswith ''$$'' (strip l) \<and> 2 < length (strip l))"
  then have "collect_math [] (ms @ l # ls) = (False, ms, l # ls)"
    using collect_math_bound[OF ms, of "[]" l ls] by simp
  then show "convert_block_lines (line # ms @ l # ls) = line # ms @ convert_block_lines (l # ls)"
    using first by (subst convert_block_lines.simps(2)) (simp add: endswith_def)
qed

theorem unterminated_bare_block_math_unchanged_witness:
  "convert_block_lines ['' $$'', ''a'', '' b''] = ['' $$'', ''a'', '' b'']
   \<and> convert_block_lines (''$$'' # replicate 31 ''x'' @ [''y'', ''$$'']) =
       ''$$'' # replicate 31 ''x'' @ [''y'', ''$$'']"
proof -
  have s: "strip '' $$'' = ''$$''" "strip ''a'' = ''a''" "strip '' b'' = ''b''" "strip ''x'' = ''x''"
    "strip ''y'' = ''y''"
    by (simp_all add: strip_def lstrip_def rstrip_def py_isspace_def)
  have y: "convert_block_lines [''y'', ''$$''] = [''y'', ''$$'']"
    using block_plain_line[of "''y''" "[''$$'']"] unterminated_bare_block_math_unchanged[of "''$$''" "[]" "''y''" "[]"]
    by simp
  show ?thesis
    using unterminated_bare_block_math_unchanged[of "'' $$''" "[''a'', '' b'']" "''y''" "[]"]
      unterminated_bare_block_math_unchanged[of "''$$''" "replicate 31 ''x''" "''y''" "[''$$'']"] s y
    by (simp add: endswith_def)
qed

end
